theory Spec2Isabelle
  imports Main "HOL-Library.Multiset" "HOL-Library.Finite_Map" "HOL-Library.List_Lexorder"
    "HOL-Library.Char_ord"
begin

section \<open>Data model of src/core/dep-graph.ts\<close>

text \<open>
  A thrown JavaScript exception is a value of \<open>error\<close>. The class throws \<^verbatim>\<open>new Error(msg)\<close>
  with three kinds of message: \<^verbatim>\<open>no such pkg: ID\<close> (\<open>NoSuchPkg ID\<close>),
  \<^verbatim>\<open>no such node: ID\<close> (\<open>NoSuchNode ID\<close>) and
  \<^verbatim>\<open>F does not support cyclic graphs yet\<close> (\<open>CyclicUnsupported F\<close>). \<open>TypeError\<close> is the
  exception the JavaScript runtime itself raises when a property of \<^verbatim>\<open>undefined\<close> is read or
  \<^verbatim>\<open>undefined\<close> is iterated. The last two are the errors of the deserializer
  \<^verbatim>\<open>createFromJSON\<close>, which \<^verbatim>\<open>equals\<close> calls.
\<close>

datatype error = NoSuchPkg string | NoSuchNode string | CyclicUnsupported string | TypeError
  | IncompatibleSchema | MalformedDocument

text \<open>
  An optional property of a JavaScript object: not there, there with the value
  \<^verbatim>\<open>undefined\<close>, or there with a value. \<^verbatim>\<open>_.isEqual\<close> tells the three apart.
\<close>

datatype 'a property = Absent | Undefined | Present 'a

subsection \<open>Plain JavaScript objects used as dictionaries\<close>

text \<open>
  The registry \<^verbatim>\<open>_pkgs\<close> of the class and the tables of graphlib are plain objects read with
  \<^verbatim>\<open>obj[key]\<close>. Such a read finds the own property of that name, and otherwise the member of
  \<^verbatim>\<open>Object.prototype\<close> of that name, if there is one: each of these members is a function,
  or the prototype object itself for \<^verbatim>\<open>__proto__\<close>, and so passes for a value in a test
  such as \<^verbatim>\<open>if (!node)\<close>. Only for the other keys is the result \<^verbatim>\<open>undefined\<close>.
\<close>

definition objectPrototypeKeys :: "string list" where
  "objectPrototypeKeys =
     [''constructor'', ''__defineGetter__'', ''__defineSetter__'', ''hasOwnProperty'',
      ''__lookupGetter__'', ''__lookupSetter__'', ''isPrototypeOf'', ''propertyIsEnumerable'',
      ''toString'', ''valueOf'', ''__proto__'', ''toLocaleString'']"

datatype 'a slot = Own 'a | Inherited string | Unset

definition readProperty :: "(string \<times> 'a) list \<Rightarrow> string \<Rightarrow> 'a slot" where
  "readProperty obj k =
     (case map_of obj k of
        Some v \<Rightarrow> Own v
      | None \<Rightarrow> if k \<in> set objectPrototypeKeys then Inherited k else Unset)"

text \<open>
  The order in which the keys of an object are enumerated (\<^verbatim>\<open>_.keys\<close>): first the keys that
  are array indices (the decimal numerals of the integers below \<open>2\<^sup>3\<^sup>2 - 1\<close>, without
  leading zeros) in ascending numeric order, then the other keys in the order of insertion.
\<close>

definition indexValue :: "string \<Rightarrow> int" where
  "indexValue s = foldl (\<lambda>n c. 10 * n + (of_char c - 48)) 0 s"

definition isDigit :: "char \<Rightarrow> bool" where
  "isDigit c = (48 \<le> (of_char c :: int) \<and> (of_char c :: int) \<le> 57)"

definition isIndexKey :: "string \<Rightarrow> bool" where
  "isIndexKey s =
     (case s of
        [] \<Rightarrow> False
      | c # cs \<Rightarrow>
          list_all isDigit s \<and> (if c = CHR ''0'' then cs = [] else True) \<and>
          indexValue s < 4294967295)"

definition jsKeys :: "string list \<Rightarrow> string list" where
  "jsKeys ks = sort_key indexValue (filter isIndexKey ks) @ filter (\<lambda>k. \<not> isIndexKey k) ks"

subsection \<open>The types of the data model\<close>

text \<open>
  Modelled from the spec: the type \<^verbatim>\<open>types.Pkg\<close> (the module of types is not among the
  sources), a name and an optional version.
\<close>

record Pkg =
  name :: string
  version :: "string property"

text \<open>
  Modelled from the spec: the type \<^verbatim>\<open>types.PkgInfo\<close>, a \<^verbatim>\<open>Pkg\<close> held as an object of the
  registry. The class compares such objects both by reference (\<^verbatim>\<open>!==\<close> in the constructor)
  and by content (\<^verbatim>\<open>_.isEqual\<close>), so the object carries its address: \<open>addr\<close> is the
  reference, \<open>name\<close> and \<open>version\<close> the content.
\<close>

record PkgInfo = Pkg +
  addr :: nat

record VersionProvenance =
  vp_type :: string
  vp_location :: string
  vp_property :: "string property"

text \<open>
  Modelled from the spec: the type \<^verbatim>\<open>types.NodeInfo\<close>, per-occurrence data (version
  provenance, labels), every field optional; the empty object \<^verbatim>\<open>{}\<close> has no field set.
\<close>

record NodeInfo =
  versionProvenance :: "VersionProvenance property"
  labels :: "(string, string) fmap property"

definition emptyInfo :: NodeInfo where
  "emptyInfo = \<lparr>versionProvenance = Absent, labels = Absent\<rparr>"

text \<open>The label stored in the graph for a node id (\<^verbatim>\<open>interface GraphNode\<close>).\<close>

record GraphNode =
  pkgId :: string
  info :: "NodeInfo option"

text \<open>
  Modelled from the spec: the type \<^verbatim>\<open>types.Node\<close>, the node view handed out by the public
  interface, with the three fields the class fills in. The field \<open>pkg\<close> holds what the read
  of the registry gave.
\<close>

record Node =
  node_id :: string
  node_info :: NodeInfo
  pkg :: "PkgInfo slot"

subsection \<open>The graphlib graph\<close>

text \<open>
  \<^verbatim>\<open>graphlib.Graph\<close> is a library outside this repository. It is a directed graph over
  string ids; every node carries the label it was added with (the class reads the labels as
  \<^verbatim>\<open>GraphNode\<close>). The library keeps the labels in one plain object and the successors and
  predecessors of each node in plain objects keyed by node id:

  \<^item> \<^verbatim>\<open>node(v)\<close> is \<^verbatim>\<open>this._nodes[v]\<close>, a read of a plain object;

  \<^item> \<^verbatim>\<open>successors(v)\<close> reads \<^verbatim>\<open>this._sucs[v]\<close> and, when that passes for a value, returns
    its keys: the successor ids of a node, no key at all for a member of \<^verbatim>\<open>Object.prototype\<close>;
    likewise \<^verbatim>\<open>predecessors(v)\<close>; otherwise the result is \<^verbatim>\<open>undefined\<close>;

  \<^item> \<^verbatim>\<open>alg.isAcyclic(g)\<close> is true exactly when the graph has no directed cycle.

  The record lists the nodes and the edges in the order of insertion.
\<close>

record Graph =
  gnodes :: "(string \<times> GraphNode) list"
  gedges :: "(string \<times> string) list"

definition g_node :: "Graph \<Rightarrow> string \<Rightarrow> GraphNode slot" where
  "g_node g v = readProperty (gnodes g) v"

definition hasNode :: "Graph \<Rightarrow> string \<Rightarrow> bool" where
  "hasNode g v = (v \<in> set (map fst (gnodes g)))"

definition successors :: "Graph \<Rightarrow> string \<Rightarrow> string list option" where
  "successors g v =
     (if hasNode g v then Some (jsKeys (map snd (filter (\<lambda>e. fst e = v) (gedges g))))
      else if v \<in> set objectPrototypeKeys then Some []
      else None)"

definition predecessors :: "Graph \<Rightarrow> string \<Rightarrow> string list option" where
  "predecessors g v =
     (if hasNode g v then Some (jsKeys (map fst (filter (\<lambda>e. snd e = v) (gedges g))))
      else if v \<in> set objectPrototypeKeys then Some []
      else None)"

text \<open>The label a node of the graph was added with.\<close>

definition nodeLabel :: "Graph \<Rightarrow> string \<Rightarrow> GraphNode option" where
  "nodeLabel g v = map_of (gnodes g) v"

definition isAcyclic :: "Graph \<Rightarrow> bool" where
  "isAcyclic g = acyclic (set (gedges g))"

text \<open>What graphlib maintains: one label per node id, no parallel edges, edges between nodes.\<close>

definition graph_ok :: "Graph \<Rightarrow> bool" where
  "graph_ok g =
     (distinct (map fst (gnodes g)) \<and> distinct (gedges g) \<and>
      list_all (\<lambda>e. hasNode g (fst e) \<and> hasNode g (snd e)) (gedges g))"

subsection \<open>The class DepGraphImpl\<close>

text \<open>
  The fields of the class. The two JavaScript objects \<^verbatim>\<open>_pkgs\<close> and \<^verbatim>\<open>_pkgNodes\<close> are
  association lists in key order; a \<^verbatim>\<open>Set\<close> of node ids is the list of its elements in
  insertion order. The last two fields are the mutable caches of the instance. The field
  \<^verbatim>\<open>_pkgManager\<close> is read by its getter and by \<^verbatim>\<open>toJSON\<close> only and is left out.
\<close>

record DepGraphImpl =
  pkgs :: "(string \<times> PkgInfo) list"
  pkgNodes :: "(string \<times> string list) list"
  pkgList :: "PkgInfo list"
  depPkgsList :: "PkgInfo list"
  graph :: Graph
  rootNodeId :: string
  rootPkgId :: string
  countNodePathsToRootCache :: "string \<Rightarrow> nat option"
  hasCyclesMemo :: "bool option"

text \<open>
  \<^verbatim>\<open>getPkgId\<close>: the name, an at sign, and the version or the empty string
  (\<^verbatim>\<open>pkg.version || ''\<close>).
\<close>

definition getPkgId :: "'a Pkg_scheme \<Rightarrow> string" where
  "getPkgId p =
     name p @ ''@'' @ (case version p of Absent \<Rightarrow> [] | Undefined \<Rightarrow> [] | Present v \<Rightarrow> v)"

text \<open>
  The property \<^verbatim>\<open>.pkgId\<close> of what \<^verbatim>\<open>graph.node(id)\<close> gave, as the key with which the
  registry is read next: the package id of a label; a member of \<^verbatim>\<open>Object.prototype\<close> has no
  such property, and \<^verbatim>\<open>undefined\<close> as a key is the string \<^verbatim>\<open>undefined\<close>. Reading the
  property of \<^verbatim>\<open>undefined\<close> itself raises a TypeError.
\<close>

definition pkgIdKey :: "GraphNode slot \<Rightarrow> error + string" where
  "pkgIdKey n =
     (case n of
        Own lbl \<Rightarrow> Inr (pkgId lbl)
      | Inherited m \<Rightarrow> Inr ''undefined''
      | Unset \<Rightarrow> Inl TypeError)"

text \<open>The getter \<^verbatim>\<open>rootPkg\<close>: what the registry gives for the root package id.\<close>

definition rootPkg :: "DepGraphImpl \<Rightarrow> PkgInfo slot" where
  "rootPkg dg = readProperty (pkgs dg) (rootPkgId dg)"

text \<open>
  \<^verbatim>\<open>a !== b\<close> on an object of the registry and what a read of the registry gave: only an
  object of the registry can be the same object.
\<close>

definition notSameRef :: "PkgInfo \<Rightarrow> PkgInfo slot \<Rightarrow> bool" where
  "notSameRef p r = (case r of Own q \<Rightarrow> addr p \<noteq> addr q | Inherited m \<Rightarrow> True | Unset \<Rightarrow> True)"

text \<open>
  The constructor. \<^verbatim>\<open>_.values(pkgs)\<close> lists the registry's objects; the dependency packages
  are those that are not the very object the registry gives for the root package id.
\<close>

definition DepGraphImpl_new ::
  "Graph \<Rightarrow> string \<Rightarrow> (string \<times> PkgInfo) list \<Rightarrow> (string \<times> string list) list
     \<Rightarrow> error + DepGraphImpl" where
  "DepGraphImpl_new g root ps pns =
     (case pkgIdKey (g_node g root) of
        Inl e \<Rightarrow> Inl e
      | Inr k \<Rightarrow>
          Inr \<lparr>pkgs = ps, pkgNodes = pns,
               pkgList = map snd ps,
               depPkgsList = filter (\<lambda>p. notSameRef p (readProperty ps k)) (map snd ps),
               graph = g, rootNodeId = root, rootPkgId = k,
               countNodePathsToRootCache = Map.empty, hasCyclesMemo = None\<rparr>)"

definition getPkgs :: "DepGraphImpl \<Rightarrow> PkgInfo list" where
  "getPkgs dg = pkgList dg"

definition getDepPkgs :: "DepGraphImpl \<Rightarrow> PkgInfo list" where
  "getDepPkgs dg = depPkgsList dg"

text \<open>
  \<^verbatim>\<open>getGraphNode\<close>: what \<^verbatim>\<open>graph.node(id)\<close> gave, or the error when that is
  \<^verbatim>\<open>undefined\<close> (the test is \<^verbatim>\<open>if (!node)\<close>).
\<close>

definition getGraphNode :: "DepGraphImpl \<Rightarrow> string \<Rightarrow> error + GraphNode slot" where
  "getGraphNode dg nodeId =
     (case g_node (graph dg) nodeId of
        Unset \<Rightarrow> Inl (NoSuchNode nodeId)
      | Own lbl \<Rightarrow> Inr (Own lbl)
      | Inherited m \<Rightarrow> Inr (Inherited m))"

text \<open>\<^verbatim>\<open>getNodePkg\<close>: what the registry gives for the node's \<^verbatim>\<open>.pkgId\<close>.\<close>

definition getNodePkg :: "DepGraphImpl \<Rightarrow> string \<Rightarrow> error + PkgInfo slot" where
  "getNodePkg dg nodeId =
     (case getGraphNode dg nodeId of
        Inl e \<Rightarrow> Inl e
      | Inr n \<Rightarrow>
          (case pkgIdKey n of
             Inl e \<Rightarrow> Inl e
           | Inr k \<Rightarrow> Inr (readProperty (pkgs dg) k)))"

text \<open>
  \<^verbatim>\<open>graphNode.info || {}\<close>; a member of \<^verbatim>\<open>Object.prototype\<close> has no property \<^verbatim>\<open>info\<close>.
\<close>

definition infoOrEmpty :: "GraphNode slot \<Rightarrow> NodeInfo" where
  "infoOrEmpty n =
     (case n of
        Own lbl \<Rightarrow> (case info lbl of None \<Rightarrow> emptyInfo | Some i \<Rightarrow> i)
      | Inherited m \<Rightarrow> emptyInfo
      | Unset \<Rightarrow> emptyInfo)"

definition getNode :: "DepGraphImpl \<Rightarrow> string \<Rightarrow> error + Node" where
  "getNode dg nodeId =
     (case getGraphNode dg nodeId of
        Inl e \<Rightarrow> Inl e
      | Inr graphNode \<Rightarrow>
          (case getNodePkg dg nodeId of
             Inl e \<Rightarrow> Inl e
           | Inr p \<Rightarrow> Inr \<lparr>node_id = nodeId, node_info = infoOrEmpty graphNode, pkg = p\<rparr>))"

definition getNodeDepsNodeIds :: "DepGraphImpl \<Rightarrow> string \<Rightarrow> error + string list" where
  "getNodeDepsNodeIds dg nodeId =
     (case successors (graph dg) nodeId of
        None \<Rightarrow> Inl (NoSuchNode nodeId)
      | Some deps \<Rightarrow> Inr deps)"

definition getNodeParentsNodeIds :: "DepGraphImpl \<Rightarrow> string \<Rightarrow> error + string list" where
  "getNodeParentsNodeIds dg nodeId =
     (case predecessors (graph dg) nodeId of
        None \<Rightarrow> Inl (NoSuchNode nodeId)
      | Some parents \<Rightarrow> Inr parents)"

text \<open>
  A \<^verbatim>\<open>for\<close> loop that pushes one result per element and is left by the first exception.
\<close>

fun mapE :: "('a \<Rightarrow> error + 'b) \<Rightarrow> 'a list \<Rightarrow> error + 'b list" where
  "mapE f [] = Inr []"
| "mapE f (x # xs) =
     (case f x of
        Inl e \<Rightarrow> Inl e
      | Inr y \<Rightarrow> (case mapE f xs of Inl e \<Rightarrow> Inl e | Inr ys \<Rightarrow> Inr (y # ys)))"

definition getNodeDeps :: "DepGraphImpl \<Rightarrow> string \<Rightarrow> error + Node list" where
  "getNodeDeps dg nodeId =
     (case getNodeDepsNodeIds dg nodeId of
        Inl e \<Rightarrow> Inl e
      | Inr depsNodeIds \<Rightarrow>
          mapE (\<lambda>depNodeId.
                 case getGraphNode dg depNodeId of
                   Inl e \<Rightarrow> Inl e
                 | Inr graphNode \<Rightarrow>
                     (case getNodePkg dg depNodeId of
                        Inl e \<Rightarrow> Inl e
                      | Inr p \<Rightarrow>
                          Inr \<lparr>node_id = depNodeId, node_info = infoOrEmpty graphNode, pkg = p\<rparr>))
               depsNodeIds)"

text \<open>
  \<^verbatim>\<open>getPkgNodes\<close> reads the registry without a check and iterates
  \<^verbatim>\<open>Array.from(this._pkgNodes[pkgId])\<close>: with no entry in the index, \<^verbatim>\<open>Array.from(undefined)\<close>
  raises a TypeError. The key is a package id \<^verbatim>\<open>name@version\<close>: it holds an at sign and so
  names no member of \<^verbatim>\<open>Object.prototype\<close>, and the read of the index, here and in
  \<^verbatim>\<open>getPkgNodeIds\<close>, gives the own property or \<^verbatim>\<open>undefined\<close>.
\<close>

definition getPkgNodes :: "DepGraphImpl \<Rightarrow> 'a Pkg_scheme \<Rightarrow> error + Node list" where
  "getPkgNodes dg p =
     (let pkgId' = getPkgId p; pkgInfo = readProperty (pkgs dg) pkgId' in
      case map_of (pkgNodes dg) pkgId' of
        None \<Rightarrow> Inl TypeError
      | Some ids \<Rightarrow>
          mapE (\<lambda>nodeId.
                 case getGraphNode dg nodeId of
                   Inl e \<Rightarrow> Inl e
                 | Inr graphNode \<Rightarrow>
                     Inr \<lparr>node_id = nodeId, node_info = infoOrEmpty graphNode, pkg = pkgInfo\<rparr>)
               ids)"

definition getPkgNodeIds :: "DepGraphImpl \<Rightarrow> 'a Pkg_scheme \<Rightarrow> error + string list" where
  "getPkgNodeIds dg p =
     (let pkgId' = getPkgId p in
      case map_of (pkgs dg) pkgId' of
        None \<Rightarrow> Inl (NoSuchPkg pkgId')
      | Some _ \<Rightarrow>
          (case map_of (pkgNodes dg) pkgId' of
             None \<Rightarrow> Inl TypeError
           | Some ids \<Rightarrow> Inr ids))"

subsection \<open>Cycle check and upward paths\<close>

text \<open>\<^verbatim>\<open>hasCycles\<close>: the answer of \<^verbatim>\<open>graphlib.alg.isAcyclic\<close>, negated, computed once and kept.\<close>

definition hasCycles :: "DepGraphImpl \<Rightarrow> bool \<times> DepGraphImpl" where
  "hasCycles dg =
     (case hasCyclesMemo dg of
        None \<Rightarrow> (let b = \<not> isAcyclic (graph dg) in (b, dg\<lparr>hasCyclesMemo := Some b\<rparr>))
      | Some b \<Rightarrow> (b, dg))"

text \<open>
  The recursions of the class have no bound of their own, so each takes a fuel argument: the
  value \<open>None\<close> stands for a call that has not returned within that many nested calls.

  \<open>collectPaths\<close> pushes the paths of each result in turn onto one list; the first call that
  does not return, or throws, ends it.
\<close>

fun collectPaths :: "(error + 'p list) option list \<Rightarrow> (error + 'p list) option" where
  "collectPaths [] = Some (Inr [])"
| "collectPaths (r # rs) =
     (case r of
        None \<Rightarrow> None
      | Some (Inl e) \<Rightarrow> Some (Inl e)
      | Some (Inr out) \<Rightarrow>
          (case collectPaths rs of
             None \<Rightarrow> None
           | Some (Inl e) \<Rightarrow> Some (Inl e)
           | Some (Inr rest) \<Rightarrow> Some (Inr (out @ rest))))"

primrec pathsFromNodeToRoot ::
  "nat \<Rightarrow> DepGraphImpl \<Rightarrow> string \<Rightarrow> (error + PkgInfo slot list list) option" where
  "pathsFromNodeToRoot 0 dg nodeId = None"
| "pathsFromNodeToRoot (Suc fuel) dg nodeId =
     (case getNodeParentsNodeIds dg nodeId of
        Inl e \<Rightarrow> Some (Inl e)
      | Inr parentNodesIds \<Rightarrow>
          if length parentNodesIds = 0 then
            (case getNodePkg dg nodeId of
               Inl e \<Rightarrow> Some (Inl e)
             | Inr p \<Rightarrow> Some (Inr [ [p] ]))
          else
            collectPaths
              (map (\<lambda>id'.
                     case pathsFromNodeToRoot fuel dg id' of
                       None \<Rightarrow> None
                     | Some (Inl e) \<Rightarrow> Some (Inl e)
                     | Some (Inr paths) \<Rightarrow>
                         Some (mapE (\<lambda>path.
                                      case getNodePkg dg nodeId of
                                        Inl e \<Rightarrow> Inl e
                                      | Inr p \<Rightarrow> Inr (p # path))
                                    paths))
                   parentNodesIds))"

text \<open>
  \<^verbatim>\<open>pkgPathsToRoot\<close>. The final \<^verbatim>\<open>sort((a, b) => a.length - b.length)\<close> is a stable sort
  by length.
\<close>

definition pkgPathsToRoot ::
  "nat \<Rightarrow> DepGraphImpl \<Rightarrow> 'a Pkg_scheme
     \<Rightarrow> ((error + PkgInfo slot list list) \<times> DepGraphImpl) option" where
  "pkgPathsToRoot fuel dg p =
     (case hasCycles dg of
        (cyc, dg') \<Rightarrow>
          if cyc then Some (Inl (CyclicUnsupported ''pkgPathsToRoot''), dg')
          else
            (case getPkgNodeIds dg' p of
               Inl e \<Rightarrow> Some (Inl e, dg')
             | Inr ids \<Rightarrow>
                 (case collectPaths (map (pathsFromNodeToRoot fuel dg') ids) of
                    None \<Rightarrow> None
                  | Some (Inl e) \<Rightarrow> Some (Inl e, dg')
                  | Some (Inr pathsToRoot) \<Rightarrow> Some (Inr (sort_key length pathsToRoot), dg'))))"

text \<open>
  \<open>reduceCount f ids acc\<close> is the accumulation \<^verbatim>\<open>acc + f(id)\<close> over the ids, left to right,
  threading the instance (the cache) through the calls. Counts are JavaScript numbers in the
  source; here they are natural numbers without a bound.
\<close>

fun reduceCount ::
  "(DepGraphImpl \<Rightarrow> string \<Rightarrow> ((error + nat) \<times> DepGraphImpl) option)
     \<Rightarrow> string list \<Rightarrow> nat \<Rightarrow> DepGraphImpl \<Rightarrow> ((error + nat) \<times> DepGraphImpl) option" where
  "reduceCount f [] acc dg = Some (Inr acc, dg)"
| "reduceCount f (i # ids) acc dg =
     (case f dg i of
        None \<Rightarrow> None
      | Some (Inl e, dg') \<Rightarrow> Some (Inl e, dg')
      | Some (Inr c, dg') \<Rightarrow> reduceCount f ids (acc + c) dg')"

primrec countNodePathsToRoot ::
  "nat \<Rightarrow> DepGraphImpl \<Rightarrow> string \<Rightarrow> ((error + nat) \<times> DepGraphImpl) option" where
  "countNodePathsToRoot 0 dg nodeId = None"
| "countNodePathsToRoot (Suc fuel) dg nodeId =
     (case countNodePathsToRootCache dg nodeId of
        Some c \<Rightarrow> Some (Inr c, dg)
      | None \<Rightarrow>
          (case getNodeParentsNodeIds dg nodeId of
             Inl e \<Rightarrow> Some (Inl e, dg)
           | Inr parentNodesIds \<Rightarrow>
               if length parentNodesIds = 0 then
                 Some (Inr 1,
                       dg\<lparr>countNodePathsToRootCache := (countNodePathsToRootCache dg)(nodeId \<mapsto> 1)\<rparr>)
               else
                 (case reduceCount (countNodePathsToRoot fuel) parentNodesIds 0 dg of
                    None \<Rightarrow> None
                  | Some (Inl e, dg') \<Rightarrow> Some (Inl e, dg')
                  | Some (Inr count', dg') \<Rightarrow>
                      Some (Inr count',
                            dg'\<lparr>countNodePathsToRootCache :=
                                  (countNodePathsToRootCache dg')(nodeId \<mapsto> count')\<rparr>))))"

definition countPathsToRoot ::
  "nat \<Rightarrow> DepGraphImpl \<Rightarrow> 'a Pkg_scheme \<Rightarrow> ((error + nat) \<times> DepGraphImpl) option" where
  "countPathsToRoot fuel dg p =
     (case hasCycles dg of
        (cyc, dg') \<Rightarrow>
          if cyc then Some (Inl (CyclicUnsupported ''countPathsToRoot''), dg')
          else
            (case getPkgNodeIds dg' p of
               Inl e \<Rightarrow> Some (Inl e, dg')
             | Inr ids \<Rightarrow> reduceCount (countNodePathsToRoot fuel) ids 0 dg'))"

subsection \<open>Structural equality\<close>

text \<open>
  \<^verbatim>\<open>_.isEqual\<close> on the \<open>pkg\<close> fields of two views. Two package objects are equal when they
  have the same properties with the same values; a member of \<^verbatim>\<open>Object.prototype\<close> is equal
  to itself only, and so is \<^verbatim>\<open>undefined\<close>.
\<close>

definition isEqualPkg :: "PkgInfo slot \<Rightarrow> PkgInfo slot \<Rightarrow> bool" where
  "isEqualPkg a b =
     (case a of
        Own p \<Rightarrow>
          (case b of
             Own q \<Rightarrow> name p = name q \<and> version p = version q
           | Inherited m \<Rightarrow> False
           | Unset \<Rightarrow> False)
      | Inherited m \<Rightarrow> (case b of Own q \<Rightarrow> False | Inherited m' \<Rightarrow> m = m' | Unset \<Rightarrow> False)
      | Unset \<Rightarrow> (case b of Own q \<Rightarrow> False | Inherited m' \<Rightarrow> False | Unset \<Rightarrow> True))"

text \<open>
  The property \<^verbatim>\<open>.name\<close> of a member of \<^verbatim>\<open>Object.prototype\<close>, as a template literal
  prints it: the name of the function, \<^verbatim>\<open>Object\<close> for the constructor, and \<^verbatim>\<open>undefined\<close>
  for the prototype object, which has no such property.
\<close>

definition memberName :: "string \<Rightarrow> string" where
  "memberName m =
     (if m = ''constructor'' then ''Object''
      else if m = ''__proto__'' then ''undefined''
      else m)"

text \<open>
  The key the comparator \<^verbatim>\<open>sortFn\<close> computes for a node id:
  \<^verbatim>\<open>getPkgId(graph.getNode(id).pkg)\<close>, a TypeError when the package is \<^verbatim>\<open>undefined\<close>. A
  member of \<^verbatim>\<open>Object.prototype\<close> has no property \<^verbatim>\<open>version\<close>.
\<close>

definition depKey :: "DepGraphImpl \<Rightarrow> string \<Rightarrow> error + string" where
  "depKey g i =
     (case getNode g i of
        Inl e \<Rightarrow> Inl e
      | Inr n \<Rightarrow>
          (case pkg n of
             Own p \<Rightarrow> Inr (getPkgId p)
           | Inherited m \<Rightarrow> Inr (memberName m @ ''@'')
           | Unset \<Rightarrow> Inl TypeError))"

text \<open>
  \<^verbatim>\<open>deps.sort(sortFn(graph))\<close>. The comparator is \<^verbatim>\<open>localeCompare\<close> on the two keys, the
  collation of the runtime in its current locale: it enters as the function \<open>collate\<close> from
  strings to a linear order, the comparison being that of the images (\<open>localeCollation\<close>
  below is the one of a runtime built with ICU). The sort is stable, and calls the comparator
  (which may throw) only when there are two elements or more.
\<close>

definition sortDeps ::
  "(string \<Rightarrow> 'k::linorder) \<Rightarrow> DepGraphImpl \<Rightarrow> string list \<Rightarrow> error + string list" where
  "sortDeps collate g ids =
     (if length ids \<le> 1 then Inr ids
      else
        (case mapE (depKey g) ids of
           Inl e \<Rightarrow> Inl e
         | Inr keys \<Rightarrow> Inr (map fst (sort_key (\<lambda>ik. collate (snd ik)) (zip ids keys)))))"

text \<open>
  The loop over the paired dependencies: a pair whose key \<^verbatim>\<open>idA_idB\<close> is in
  \<open>traversedPairs\<close> is passed over; otherwise the key is added and the pair compared by \<open>f\<close>,
  the first \<open>false\<close> ending the loop.
\<close>

fun forDeps ::
  "(string \<Rightarrow> string \<Rightarrow> string set \<Rightarrow> (error + bool \<times> string set) option)
     \<Rightarrow> (string \<times> string) list \<Rightarrow> string set \<Rightarrow> (error + bool \<times> string set) option" where
  "forDeps f [] traversedPairs = Some (Inr (True, traversedPairs))"
| "forDeps f (ab # rest) traversedPairs =
     (let pairKey = fst ab @ ''_'' @ snd ab in
      if pairKey \<in> traversedPairs then forDeps f rest traversedPairs
      else
        (case f (fst ab) (snd ab) (insert pairKey traversedPairs) of
           None \<Rightarrow> None
         | Some (Inl e) \<Rightarrow> Some (Inl e)
         | Some (Inr (b, traversed')) \<Rightarrow>
             if \<not> b then Some (Inr (False, traversed')) else forDeps f rest traversed'))"

text \<open>The part of \<^verbatim>\<open>nodeEquals\<close> after the comparison of the two nodes themselves.\<close>

definition compareDeps ::
  "(string \<Rightarrow> 'k::linorder)
     \<Rightarrow> (string \<Rightarrow> string \<Rightarrow> string set \<Rightarrow> (error + bool \<times> string set) option)
     \<Rightarrow> DepGraphImpl \<Rightarrow> string \<Rightarrow> DepGraphImpl \<Rightarrow> string \<Rightarrow> string set
     \<Rightarrow> (error + bool \<times> string set) option" where
  "compareDeps collate f graphA nodeIdA graphB nodeIdB traversedPairs =
     (case getNodeDeps graphA nodeIdA of
        Inl e \<Rightarrow> Some (Inl e)
      | Inr nsA \<Rightarrow>
          (case getNodeDeps graphB nodeIdB of
             Inl e \<Rightarrow> Some (Inl e)
           | Inr nsB \<Rightarrow>
               (let depsA = map node_id nsA; depsB = map node_id nsB in
                if length depsA \<noteq> length depsB then Some (Inr (False, traversedPairs))
                else
                  (case sortDeps collate graphA depsA of
                     Inl e \<Rightarrow> Some (Inl e)
                   | Inr sortedA \<Rightarrow>
                       (case sortDeps collate graphB depsB of
                          Inl e \<Rightarrow> Some (Inl e)
                        | Inr sortedB \<Rightarrow> forDeps f (zip sortedA sortedB) traversedPairs)))))"

text \<open>Whether \<^verbatim>\<open>nodeEquals\<close> compares the two nodes themselves.\<close>

definition comparesPair :: "bool \<Rightarrow> DepGraphImpl \<Rightarrow> string \<Rightarrow> DepGraphImpl \<Rightarrow> string \<Rightarrow> bool" where
  "comparesPair compareRoot graphA nodeIdA graphB nodeIdB =
     (compareRoot \<or> (nodeIdA \<noteq> rootNodeId graphA \<and> nodeIdB \<noteq> rootNodeId graphB))"

primrec nodeEquals ::
  "(string \<Rightarrow> 'k::linorder) \<Rightarrow> nat \<Rightarrow> DepGraphImpl \<Rightarrow> string \<Rightarrow> DepGraphImpl \<Rightarrow> string
     \<Rightarrow> bool \<Rightarrow> string set \<Rightarrow> (error + bool \<times> string set) option" where
  "nodeEquals collate 0 graphA nodeIdA graphB nodeIdB compareRoot traversedPairs = None"
| "nodeEquals collate (Suc fuel) graphA nodeIdA graphB nodeIdB compareRoot traversedPairs =
     (if comparesPair compareRoot graphA nodeIdA graphB nodeIdB then
        (case getNode graphA nodeIdA of
           Inl e \<Rightarrow> Some (Inl e)
         | Inr nodeA \<Rightarrow>
             (case getNode graphB nodeIdB of
                Inl e \<Rightarrow> Some (Inl e)
              | Inr nodeB \<Rightarrow>
                  if \<not> isEqualPkg (pkg nodeA) (pkg nodeB) then Some (Inr (False, traversedPairs))
                  else if node_info nodeA \<noteq> node_info nodeB then
                    Some (Inr (False, traversedPairs))
                  else
                    compareDeps collate
                      (\<lambda>a b. nodeEquals collate fuel graphA a graphB b compareRoot)
                      graphA nodeIdA graphB nodeIdB traversedPairs))
      else
        compareDeps collate
          (\<lambda>a b. nodeEquals collate fuel graphA a graphB b compareRoot)
          graphA nodeIdA graphB nodeIdB traversedPairs)"

subsection \<open>The deserializer and equals\<close>

text \<open>
  Modelled from the spec: the canonical document (section 6 of the specification): the schema
  version with its three components, the registry entries, the root node id, and the nodes,
  each with its package id, the ids of its successors and its optional info. The descriptor
  of the package manager is left out, as the field of the class is.
\<close>

record DocNode =
  d_nodeId :: string
  d_pkgId :: string
  d_deps :: "string list"
  d_info :: "NodeInfo option"

record DepGraphData =
  schemaVersion :: "nat \<times> nat \<times> nat"
  d_pkgs :: "(string \<times> Pkg) list"
  d_rootNodeId :: string
  d_nodes :: "DocNode list"

text \<open>
  Modelled from the spec: the graph, the registry and the occurrence index a document
  describes. Every registry entry is a new object; an edge listed twice is one edge.
\<close>

definition docGraph :: "DepGraphData \<Rightarrow> Graph" where
  "docGraph d =
     \<lparr>gnodes = map (\<lambda>n. (d_nodeId n, \<lparr>pkgId = d_pkgId n, info = d_info n\<rparr>)) (d_nodes d),
      gedges = remdups (concat (map (\<lambda>n. map (\<lambda>w. (d_nodeId n, w)) (d_deps n)) (d_nodes d)))\<rparr>"

definition docRegistry :: "DepGraphData \<Rightarrow> (string \<times> PkgInfo) list" where
  "docRegistry d =
     map (\<lambda>akp. (fst (snd akp),
                  \<lparr>name = name (snd (snd akp)), version = version (snd (snd akp)),
                   addr = fst akp\<rparr>))
       (enumerate 0 (d_pkgs d))"

definition docIndex :: "DepGraphData \<Rightarrow> (string \<times> string list) list" where
  "docIndex d =
     map (\<lambda>kp. (fst kp, map d_nodeId (filter (\<lambda>n. d_pkgId n = fst kp) (d_nodes d))))
       (d_pkgs d)"

text \<open>
  Modelled from the spec: a document is malformed when the root is missing or an edge refers
  to a node that is not there; and, since the instance produced has to satisfy the invariants,
  when a node id or a registry id occurs twice, the id of a registry entry is not the package
  id of its package, or the package id of a node is not registered.
\<close>

definition wellFormedDocument :: "DepGraphData \<Rightarrow> bool" where
  "wellFormedDocument d =
     (d_rootNodeId d \<in> set (map d_nodeId (d_nodes d)) \<and>
      distinct (map d_nodeId (d_nodes d)) \<and>
      distinct (map fst (d_pkgs d)) \<and>
      list_all (\<lambda>kp. fst kp = getPkgId (snd kp)) (d_pkgs d) \<and>
      list_all (\<lambda>n. d_pkgId n \<in> set (map fst (d_pkgs d)) \<and>
                  list_all (\<lambda>w. w \<in> set (map d_nodeId (d_nodes d))) (d_deps n))
               (d_nodes d))"

text \<open>
  Modelled from the spec: the deserializer \<^verbatim>\<open>createFromJSON\<close> (the module is not among the
  sources). It accepts a document of the major schema version of this class
  (\<^verbatim>\<open>SCHEMA_VERSION\<close> is 1.2.0) and fails with \<open>IncompatibleSchema\<close> for another one, fails
  with \<open>MalformedDocument\<close> for a malformed document, and otherwise constructs the instance
  the document describes.
\<close>

definition createFromJSON :: "DepGraphData \<Rightarrow> error + DepGraphImpl" where
  "createFromJSON d =
     (if fst (schemaVersion d) \<noteq> 1 then Inl IncompatibleSchema
      else if \<not> wellFormedDocument d then Inl MalformedDocument
      else DepGraphImpl_new (docGraph d) (d_rootNodeId d) (docRegistry d) (docIndex d))"

text \<open>
  Modelled from the spec: a value of the interface \<^verbatim>\<open>types.DepGraph\<close> is an instance of this
  class or an object of another implementation, which \<^verbatim>\<open>equals\<close> knows by the document its
  \<^verbatim>\<open>toJSON\<close> returns.
\<close>

datatype DepGraph = Native DepGraphImpl | Foreign DepGraphData

text \<open>
  \<^verbatim>\<open>equals\<close>: an argument that is not an instance of this class is rebuilt from its
  document first, and an exception of the deserializer leaves \<^verbatim>\<open>equals\<close>.
\<close>

definition equals ::
  "(string \<Rightarrow> 'k::linorder) \<Rightarrow> nat \<Rightarrow> DepGraphImpl \<Rightarrow> DepGraph \<Rightarrow> bool
     \<Rightarrow> (error + bool) option" where
  "equals collate fuel this other compareRoot =
     (case (case other of Native impl \<Rightarrow> Inr impl | Foreign d \<Rightarrow> createFromJSON d) of
        Inl e \<Rightarrow> Some (Inl e)
      | Inr otherDepGraph \<Rightarrow>
          map_option (map_sum (\<lambda>e. e) fst)
            (nodeEquals collate fuel this (rootNodeId this) otherDepGraph
               (rootNodeId otherDepGraph) compareRoot {}))"

section \<open>Valid instances\<close>

text \<open>
  Modelled from the spec: the registry as the builder and the deserializer (not among the
  sources) fill it, one entry per package identity: the keys are distinct, the key of an entry
  is the package id of its value, and an object address holds one content.
\<close>

definition registry_ok :: "(string \<times> PkgInfo) list \<Rightarrow> bool" where
  "registry_ok ps =
     (distinct (map fst ps) \<and>
      list_all (\<lambda>kp. fst kp = getPkgId (snd kp)) ps \<and>
      list_all (\<lambda>kp. list_all (\<lambda>kq. addr (snd kp) = addr (snd kq) \<longrightarrow> snd kp = snd kq) ps) ps)"

text \<open>
  Modelled from the spec: the invariants of a valid instance, which the builder and the
  deserializer (not among the sources) establish. The graph is well formed, the root id is a
  node, the package id of every node is registered, the occurrence index has the keys of the
  registry and lists for each key exactly the nodes of that package, the root package id is
  that of the root node, and the two package lists are those the constructor computes.
\<close>

definition valid :: "DepGraphImpl \<Rightarrow> bool" where
  "valid dg =
     (graph_ok (graph dg) \<and>
      hasNode (graph dg) (rootNodeId dg) \<and>
      list_all (\<lambda>n. map_of (pkgs dg) (pkgId (snd n)) \<noteq> None) (gnodes (graph dg)) \<and>
      registry_ok (pkgs dg) \<and>
      distinct (map fst (pkgNodes dg)) \<and>
      set (map fst (pkgNodes dg)) = set (map fst (pkgs dg)) \<and>
      list_all (\<lambda>kn. distinct (snd kn) \<and>
                  set (snd kn) =
                    set (map fst (filter (\<lambda>n. pkgId (snd n) = fst kn) (gnodes (graph dg)))))
               (pkgNodes dg) \<and>
      map_option pkgId (nodeLabel (graph dg) (rootNodeId dg)) = Some (rootPkgId dg) \<and>
      pkgList dg = map snd (pkgs dg) \<and>
      depPkgsList dg = filter (\<lambda>p. notSameRef p (rootPkg dg)) (pkgList dg))"

text \<open>
  The two caches agree with what they cache: a cached count is the number of paths
  \<^verbatim>\<open>pathsFromNodeToRoot\<close> returns for that node, and the memoized flag is the answer of the
  cycle check.
\<close>

definition cache_agrees :: "DepGraphImpl \<Rightarrow> (string \<Rightarrow> nat option) \<Rightarrow> bool" where
  "cache_agrees dg c =
     (\<forall>n v. c n = Some v \<longrightarrow>
        (\<exists>fuel P. pathsFromNodeToRoot fuel dg n = Some (Inr P) \<and> v = length P))"

definition caches_ok :: "DepGraphImpl \<Rightarrow> bool" where
  "caches_ok dg =
     ((\<forall>b. hasCyclesMemo dg = Some b \<longrightarrow> b = (\<not> isAcyclic (graph dg))) \<and>
      cache_agrees dg (countNodePathsToRootCache dg))"

text \<open>
  The upward paths of a node in the words of the specification: a node with no parents has
  the single path of its own package; a node with parents has, for each parent in turn and
  each path of that parent, its own package followed by that path.
\<close>

inductive upwardPaths :: "DepGraphImpl \<Rightarrow> string \<Rightarrow> PkgInfo slot list list \<Rightarrow> bool"
  for dg :: DepGraphImpl where
  noParents:
    "predecessors (graph dg) n = Some [] \<Longrightarrow> getNodePkg dg n = Inr p \<Longrightarrow> upwardPaths dg n [ [p] ]"
| withParents:
    "predecessors (graph dg) n = Some ps \<Longrightarrow> ps \<noteq> [] \<Longrightarrow> getNodePkg dg n = Inr p \<Longrightarrow>
     list_all2 (upwardPaths dg) ps Pss \<Longrightarrow>
     upwardPaths dg n (concat (map (map ((#) p)) Pss))"

code_pred upwardPaths .

text \<open>The package id stored for a node id (the empty string for an unknown id).\<close>

definition storedPkgId :: "DepGraphImpl \<Rightarrow> string \<Rightarrow> string" where
  "storedPkgId g i = (case nodeLabel (graph g) i of None \<Rightarrow> [] | Some lbl \<Rightarrow> pkgId lbl)"






text \<open>
  The loop over the paired dependencies in the words of the specification: the pairs are
  taken in turn; a pair met before is passed over; the first pair that compares as different
  ends the loop with the answer false; when no pair does, the answer is true. The set of the
  pairs met is held as the code holds it, by the keys \<^verbatim>\<open>idA_idB\<close>.
\<close>

inductive comparesPairwise ::
  "(string \<Rightarrow> string \<Rightarrow> string set \<Rightarrow> (error + bool \<times> string set) option)
     \<Rightarrow> (string \<times> string) list \<Rightarrow> string set \<Rightarrow> bool \<times> string set \<Rightarrow> bool"
  for f :: "string \<Rightarrow> string \<Rightarrow> string set \<Rightarrow> (error + bool \<times> string set) option" where
  finished:
    "comparesPairwise f [] T (True, T)"
| passedOver:
    "a @ ''_'' @ b \<in> T \<Longrightarrow> comparesPairwise f rest T r \<Longrightarrow>
     comparesPairwise f ((a, b) # rest) T r"
| differ:
    "a @ ''_'' @ b \<notin> T \<Longrightarrow> f a b (insert (a @ ''_'' @ b) T) = Some (Inr (False, T')) \<Longrightarrow>
     comparesPairwise f ((a, b) # rest) T (False, T')"
| agree:
    "a @ ''_'' @ b \<notin> T \<Longrightarrow> f a b (insert (a @ ''_'' @ b) T) = Some (Inr (True, T')) \<Longrightarrow>
     comparesPairwise f rest T' r \<Longrightarrow>
     comparesPairwise f ((a, b) # rest) T r"

code_pred (modes: i \<Rightarrow> i \<Rightarrow> i \<Rightarrow> o \<Rightarrow> bool) comparesPairwise .

text \<open>
  The collation of the specification, the plain comparison of strings code unit by code
  unit.
\<close>

definition codeUnitOrder :: "string \<Rightarrow> string" where
  "codeUnitOrder s = s"

text \<open>
  The collation of \<^verbatim>\<open>localeCompare\<close> on a runtime built with ICU (Node.js) in a locale that
  has the root order of the Unicode collation algorithm, such as English, for strings of
  printable ASCII characters. Strings are compared first by the primary weights of their
  characters, in which a letter weighs the same in lower and in upper case and the
  characters rank as listed in \<open>collationOrder\<close> (by character code: the space, the
  punctuation marks and symbols, the digits, the letters); strings that are alike so far are
  compared by case, lower case first. The image of a string is the list of its primary
  weights, a zero, and the list of its case weights. A character outside the list is ranked
  after those of the list, by its code.
\<close>

definition collationOrder :: "int list" where
  "collationOrder =
     [32, 95, 45, 44, 59, 58, 33, 63, 46, 39, 34, 40, 41, 91, 93, 123, 125, 64, 42, 47, 92,
      38, 35, 37, 96, 94, 43, 60, 61, 62, 124, 126, 36] @ [48..57] @ [97..122]"

definition isUpper :: "char \<Rightarrow> bool" where
  "isUpper c = (65 \<le> (of_char c :: int) \<and> (of_char c :: int) \<le> 90)"

definition primaryWeight :: "char \<Rightarrow> int" where
  "primaryWeight c =
     (let n = (if isUpper c then of_char c + 32 else of_char c) in
      case map_of (zip collationOrder [1..69]) n of
        Some w \<Rightarrow> w
      | None \<Rightarrow> 70 + n)"

definition caseWeight :: "char \<Rightarrow> int" where
  "caseWeight c = (if isUpper c then 1 else 0)"

definition localeCollation :: "string \<Rightarrow> int list" where
  "localeCollation s = map primaryWeight s @ [0] @ map caseWeight s"


section \<open>Example instances\<close>

definition mkPkg :: "string \<Rightarrow> string \<Rightarrow> nat \<Rightarrow> PkgInfo" where
  "mkPkg n v a = \<lparr>name = n, version = Present v, addr = a\<rparr>"

definition mkNode :: "string \<Rightarrow> string \<Rightarrow> string \<times> GraphNode" where
  "mkNode i k = (i, \<lparr>pkgId = k, info = None\<rparr>)"

text \<open>The instance the constructor returns for a root node with package id \<open>k\<close>.\<close>

definition mkDepGraph ::
  "Graph \<Rightarrow> string \<Rightarrow> string \<Rightarrow> (string \<times> PkgInfo) list \<Rightarrow> (string \<times> string list) list
     \<Rightarrow> DepGraphImpl" where
  "mkDepGraph g root k ps pns =
     \<lparr>pkgs = ps, pkgNodes = pns,
      pkgList = map snd ps,
      depPkgsList = filter (\<lambda>p. notSameRef p (readProperty ps k)) (map snd ps),
      graph = g, rootNodeId = root, rootPkgId = k,
      countNodePathsToRootCache = Map.empty, hasCyclesMemo = None\<rparr>"

text \<open>
  The diamond: the root \<open>A@1\<close> depends on \<open>B@1\<close> and \<open>C@1\<close>, which both depend on \<open>D@1\<close>.
\<close>

definition diamondGraph :: Graph where
  "diamondGraph =
     \<lparr>gnodes = [mkNode ''r'' ''A@1'', mkNode ''b'' ''B@1'', mkNode ''c'' ''C@1'',
                mkNode ''d'' ''D@1''],
      gedges = [(''r'', ''b''), (''r'', ''c''), (''b'', ''d''), (''c'', ''d'')]\<rparr>"

definition diamondPkgs :: "(string \<times> PkgInfo) list" where
  "diamondPkgs =
     [(''A@1'', mkPkg ''A'' ''1'' 0), (''B@1'', mkPkg ''B'' ''1'' 1),
      (''C@1'', mkPkg ''C'' ''1'' 2), (''D@1'', mkPkg ''D'' ''1'' 3)]"

definition diamondPkgNodes :: "(string \<times> string list) list" where
  "diamondPkgNodes =
     [(''A@1'', [''r'']), (''B@1'', [''b'']), (''C@1'', [''c'']), (''D@1'', [''d''])]"

definition diamond :: DepGraphImpl where
  "diamond = mkDepGraph diamondGraph ''r'' ''A@1'' diamondPkgs diamondPkgNodes"


text \<open>
  Two cyclic instances: in \<open>cycA\<close> the root and \<open>x\<close> depend on each other; in \<open>cycB\<close> the
  root depends on \<open>x\<close>, and \<open>x\<close> and \<open>y\<close> depend on each other.
\<close>

definition cycA :: DepGraphImpl where
  "cycA =
     mkDepGraph
       \<lparr>gnodes = [mkNode ''r'' ''R@1'', mkNode ''x'' ''X@1''],
        gedges = [(''r'', ''x''), (''x'', ''r'')]\<rparr>
       ''r'' ''R@1''
       [(''R@1'', mkPkg ''R'' ''1'' 0), (''X@1'', mkPkg ''X'' ''1'' 1)]
       [(''R@1'', [''r'']), (''X@1'', [''x''])]"








text \<open>
  Two instances with the same nodes and the same edges, in which the two dependencies of the
  root have the same package and are listed in the one order and in the other.
\<close>

definition tieGraph :: "(string \<times> string) list \<Rightarrow> Graph" where
  "tieGraph es =
     \<lparr>gnodes = [mkNode ''r'' ''R@1'', mkNode ''a1'' ''P@1'', mkNode ''a2'' ''P@1'',
                mkNode ''x'' ''X@1''],
      gedges = es\<rparr>"

definition tiePkgs :: "(string \<times> PkgInfo) list" where
  "tiePkgs =
     [(''R@1'', mkPkg ''R'' ''1'' 0), (''P@1'', mkPkg ''P'' ''1'' 1),
      (''X@1'', mkPkg ''X'' ''1'' 2)]"

definition tiePkgNodes :: "(string \<times> string list) list" where
  "tiePkgNodes = [(''R@1'', [''r'']), (''P@1'', [''a1'', ''a2'']), (''X@1'', [''x''])]"

definition tieA :: DepGraphImpl where
  "tieA =
     mkDepGraph (tieGraph [(''r'', ''a1''), (''r'', ''a2''), (''a1'', ''x'')])
       ''r'' ''R@1'' tiePkgs tiePkgNodes"

definition tieB :: DepGraphImpl where
  "tieB =
     mkDepGraph (tieGraph [(''r'', ''a2''), (''r'', ''a1''), (''a1'', ''x'')])
       ''r'' ''R@1'' tiePkgs tiePkgNodes"

text \<open>
  Two instances that differ in the root package only; the root is also a dependency of
  \<open>x\<close>, next to \<open>y\<close>, whose package \<open>B@1\<close> comes after \<open>a@1\<close> and before \<open>C@1\<close> in the
  collation of the runtime, and before both in the plain comparison of strings.
\<close>

definition caseGraph :: "string \<Rightarrow> Graph" where
  "caseGraph k =
     \<lparr>gnodes = [mkNode ''r'' k, mkNode ''x'' ''M@1'', mkNode ''y'' ''B@1''],
      gedges = [(''r'', ''x''), (''x'', ''r''), (''x'', ''y'')]\<rparr>"

definition caseA :: DepGraphImpl where
  "caseA =
     mkDepGraph (caseGraph ''a@1'') ''r'' ''a@1''
       [(''a@1'', mkPkg ''a'' ''1'' 0), (''M@1'', mkPkg ''M'' ''1'' 1),
        (''B@1'', mkPkg ''B'' ''1'' 2)]
       [(''a@1'', [''r'']), (''M@1'', [''x'']), (''B@1'', [''y''])]"

definition caseB :: DepGraphImpl where
  "caseB =
     mkDepGraph (caseGraph ''C@1'') ''r'' ''C@1''
       [(''C@1'', mkPkg ''C'' ''1'' 0), (''M@1'', mkPkg ''M'' ''1'' 1),
        (''B@1'', mkPkg ''B'' ''1'' 2)]
       [(''C@1'', [''r'']), (''M@1'', [''x'']), (''B@1'', [''y''])]"


section \<open>Properties\<close>

subsection \<open>Node lookups\<close>

lemma hasNode_nodeLabel: "hasNode g v \<longleftrightarrow> nodeLabel g v \<noteq> None"
  by (simp add: hasNode_def nodeLabel_def map_of_eq_None_iff)

lemma g_node_Own: "g_node g v = Own lbl \<longleftrightarrow> nodeLabel g v = Some lbl"
  by (simp add: g_node_def readProperty_def nodeLabel_def split: option.splits)

lemma g_node_absent:
  "nodeLabel g v = None \<Longrightarrow>
   g_node g v = (if v \<in> set objectPrototypeKeys then Inherited v else Unset)"
  by (simp add: g_node_def readProperty_def nodeLabel_def)

lemma set_jsKeys [simp]: "set (jsKeys ks) = set ks"
  by (auto simp: jsKeys_def)

lemma mset_jsKeys [simp]: "mset (jsKeys ks) = mset ks"
  by (simp add: jsKeys_def)

lemma length_jsKeys [simp]: "length (jsKeys ks) = length ks"
  using mset_jsKeys [of ks] by (metis size_mset)

lemma distinct_jsKeys [simp]: "distinct (jsKeys ks) = distinct ks"
  using mset_jsKeys [of ks] by (metis mset_eq_imp_distinct_iff)

lemma jsKeys_Nil [simp]: "jsKeys ks = [] \<longleftrightarrow> ks = []"
  using length_jsKeys [of ks] by (metis length_0_conv)

lemma mapE_Inr_iff: "mapE f xs = Inr ys \<longleftrightarrow> list_all2 (\<lambda>x y. f x = Inr y) xs ys"
proof (induction xs arbitrary: ys)
  case Nil
  then show ?case by auto
next
  case (Cons x xs)
  show ?case
  proof (cases "f x")
    case (Inl e)
    then show ?thesis by (auto simp: list_all2_Cons1)
  next
    case fx: (Inr y)
    show ?thesis
    proof (cases "mapE f xs")
      case (Inl e)
      with Cons.IH have "\<And>zs. \<not> list_all2 (\<lambda>x y. f x = Inr y) xs zs" by simp
      with fx Inl show ?thesis by (auto simp: list_all2_Cons1)
    next
      case (Inr ys')
      with Cons.IH have "\<And>zs. list_all2 (\<lambda>x y. f x = Inr y) xs zs \<longleftrightarrow> ys' = zs" by simp
      with fx Inr show ?thesis by (auto simp: list_all2_Cons1)
    qed
  qed
qed

lemma mapE_total: "(\<And>x. x \<in> set xs \<Longrightarrow> \<exists>y. f x = Inr y) \<Longrightarrow> \<exists>ys. mapE f xs = Inr ys"
proof (induction xs)
  case Nil
  then show ?case by simp
next
  case (Cons x xs)
  then obtain y where y: "f x = Inr y" by auto
  from Cons obtain ys where "mapE f xs = Inr ys" by auto
  with y show ?case by simp
qed

lemma successors_in_graph:
  "graph_ok g \<Longrightarrow> hasNode g v \<Longrightarrow> successors g v = Some ds \<Longrightarrow> d \<in> set ds \<Longrightarrow> hasNode g d"
  by (auto simp: graph_ok_def successors_def list_all_iff split: if_splits)

lemma predecessors_in_graph:
  "graph_ok g \<Longrightarrow> hasNode g v \<Longrightarrow> predecessors g v = Some ds \<Longrightarrow> d \<in> set ds \<Longrightarrow> hasNode g d"
  by (auto simp: graph_ok_def predecessors_def list_all_iff split: if_splits)

lemma successors_present:
  "hasNode g v \<Longrightarrow> \<exists>ds. successors g v = Some ds \<and> set ds = {d. (v, d) \<in> set (gedges g)}"
  by (force simp: successors_def)

lemma predecessors_present:
  "hasNode g v \<Longrightarrow> \<exists>ps. predecessors g v = Some ps \<and> set ps = {p. (p, v) \<in> set (gedges g)}"
  by (force simp: predecessors_def)

lemma getNode_present:
  "nodeLabel (graph dg) i = Some lbl \<Longrightarrow>
   getNode dg i =
     Inr \<lparr>node_id = i, node_info = infoOrEmpty (Own lbl),
          pkg = readProperty (pkgs dg) (pkgId lbl)\<rparr>"
  by (simp add: getNode_def getGraphNode_def getNodePkg_def pkgIdKey_def
      g_node_Own [THEN iffD2])

lemma getNode_absent:
  "\<not> hasNode (graph dg) i \<Longrightarrow> i \<notin> set objectPrototypeKeys \<Longrightarrow>
   getNode dg i = Inl (NoSuchNode i)"
  by (simp add: getNode_def getGraphNode_def hasNode_nodeLabel g_node_absent)

lemma getNodeDeps_present:
  assumes "graph_ok (graph dg)" "hasNode (graph dg) i" "successors (graph dg) i = Some ds"
  shows "getNodeDeps dg i =
     Inr (map (\<lambda>d. \<lparr>node_id = d, node_info = infoOrEmpty (Own (the (nodeLabel (graph dg) d))),
                    pkg = readProperty (pkgs dg) (pkgId (the (nodeLabel (graph dg) d)))\<rparr>) ds)"
proof -
  have "\<forall>d\<in>set ds. g_node (graph dg) d = Own (the (nodeLabel (graph dg) d))"
    using successors_in_graph [OF assms] by (auto simp: hasNode_nodeLabel g_node_Own)
  then have "list_all2 (\<lambda>d y. (case getGraphNode dg d of Inl e \<Rightarrow> Inl e
        | Inr graphNode \<Rightarrow> (case getNodePkg dg d of Inl e \<Rightarrow> Inl e
           | Inr p \<Rightarrow> Inr \<lparr>node_id = d, node_info = infoOrEmpty graphNode, pkg = p\<rparr>)) = Inr y)
      ds (map (\<lambda>d. \<lparr>node_id = d, node_info = infoOrEmpty (Own (the (nodeLabel (graph dg) d))),
                    pkg = readProperty (pkgs dg) (pkgId (the (nodeLabel (graph dg) d)))\<rparr>) ds)"
    by (auto simp: list_all2_map2 getGraphNode_def getNodePkg_def pkgIdKey_def
        intro!: list_all2_same [THEN iffD2])
  then show ?thesis
    using assms(3) by (simp add: getNodeDeps_def getNodeDepsNodeIds_def mapE_Inr_iff)
qed

lemma absent_id_lookups:
  assumes "\<not> hasNode (graph dg) i" "i \<notin> set objectPrototypeKeys"
  shows "getNode dg i = Inl (NoSuchNode i)"
    and "getNodeDepsNodeIds dg i = Inl (NoSuchNode i)"
    and "getNodeDeps dg i = Inl (NoSuchNode i)"
    and "getNodeParentsNodeIds dg i = Inl (NoSuchNode i)"
  using assms
  by (simp_all add: getNode_absent getNodeDepsNodeIds_def getNodeDeps_def successors_def
      getNodeParentsNodeIds_def predecessors_def)

lemma present_id_lookups:
  assumes "hasNode (graph dg) i" "graph_ok (graph dg)"
  shows "\<exists>lbl. nodeLabel (graph dg) i = Some lbl \<and>
         getNode dg i =
           Inr \<lparr>node_id = i, node_info = infoOrEmpty (Own lbl),
                pkg = readProperty (pkgs dg) (pkgId lbl)\<rparr>"
    and "\<exists>ds. getNodeDepsNodeIds dg i = Inr ds \<and>
         set ds = {d. (i, d) \<in> set (gedges (graph dg))} \<and>
         (\<exists>ns. getNodeDeps dg i = Inr ns \<and> map node_id ns = ds)"
    and "\<exists>ps. getNodeParentsNodeIds dg i = Inr ps \<and>
         set ps = {p. (p, i) \<in> set (gedges (graph dg))}"
proof -
  from assms(1) show "\<exists>lbl. nodeLabel (graph dg) i = Some lbl \<and>
         getNode dg i =
           Inr \<lparr>node_id = i, node_info = infoOrEmpty (Own lbl),
                pkg = readProperty (pkgs dg) (pkgId lbl)\<rparr>"
    by (auto simp: hasNode_nodeLabel getNode_present)
  from successors_present [OF assms(1)] obtain ds where
    s: "successors (graph dg) i = Some ds" "set ds = {d. (i, d) \<in> set (gedges (graph dg))}"
    by blast
  have "getNodeDepsNodeIds dg i = Inr ds"
    using s(1) by (simp add: getNodeDepsNodeIds_def)
  moreover have "\<exists>ns. getNodeDeps dg i = Inr ns \<and> map node_id ns = ds"
    using getNodeDeps_present [OF assms(2,1) s(1)] by (simp add: comp_def)
  ultimately show "\<exists>ds. getNodeDepsNodeIds dg i = Inr ds \<and>
         set ds = {d. (i, d) \<in> set (gedges (graph dg))} \<and>
         (\<exists>ns. getNodeDeps dg i = Inr ns \<and> map node_id ns = ds)"
    using s(2) by blast
  from predecessors_present [OF assms(1)] show "\<exists>ps. getNodeParentsNodeIds dg i = Inr ps \<and>
         set ps = {p. (p, i) \<in> set (gedges (graph dg))}"
    by (auto simp: getNodeParentsNodeIds_def)
qed

text \<open>
  Claim C7. Lookups of an id that is not a node of the graph and names a member of
  \<^verbatim>\<open>Object.prototype\<close>: on the diamond, \<open>constructor\<close> is no node, and \<^verbatim>\<open>getNode\<close> returns a
  view for it, with the empty info and no package, where the claim asks for the error no such
  node; \<^verbatim>\<open>getNodeDepsNodeIds\<close>, \<^verbatim>\<open>getNodeDeps\<close> and \<^verbatim>\<open>getNodeParentsNodeIds\<close> return the
  empty list. The class tests the truth of what graphlib reads from its plain objects.
\<close>

theorem lookups_of_prototype_member_names:
  "hasNode (graph diamond) ''constructor'' = False \<and>
   getNode diamond ''constructor'' =
     Inr \<lparr>node_id = ''constructor'', node_info = emptyInfo, pkg = Unset\<rparr> \<and>
   getNodeDepsNodeIds diamond ''constructor'' = Inr [] \<and>
   getNodeDeps diamond ''constructor'' = Inr [] \<and>
   getNodeParentsNodeIds diamond ''constructor'' = Inr []"
  by code_simp

subsection \<open>Node views and the package lists\<close>

lemma infoOrEmpty_cases:
  "g_node g i = n \<Longrightarrow> n \<noteq> Unset \<Longrightarrow>
   (\<exists>lbl. nodeLabel g i = Some lbl \<and>
      (info lbl = None \<longrightarrow> infoOrEmpty n = emptyInfo) \<and>
      (\<forall>x. info lbl = Some x \<longrightarrow> infoOrEmpty n = x)) \<or>
   (nodeLabel g i = None \<and> i \<in> set objectPrototypeKeys \<and> infoOrEmpty n = emptyInfo)"
  by (auto simp: g_node_def readProperty_def nodeLabel_def infoOrEmpty_def
      split: option.splits if_splits)

lemma getGraphNode_Inr:
  "getGraphNode dg i = Inr n \<Longrightarrow> g_node (graph dg) i = n \<and> n \<noteq> Unset"
  by (auto simp: getGraphNode_def split: slot.splits)

lemma getNode_Inr:
  "getNode dg i = Inr n \<Longrightarrow>
   node_id n = i \<and> g_node (graph dg) i \<noteq> Unset \<and>
   node_info n = infoOrEmpty (g_node (graph dg) i) \<and> getNodePkg dg i = Inr (pkg n)"
  by (auto simp: getNode_def dest!: getGraphNode_Inr split: sum.splits)

lemma mapE_Inr_set:
  "mapE f xs = Inr ys \<Longrightarrow> y \<in> set ys \<Longrightarrow> \<exists>x\<in>set xs. f x = Inr y"
  unfolding mapE_Inr_iff by (induction xs ys rule: list_all2_induct) auto

lemma mapE_all_Inr:
  "(\<And>x. x \<in> set xs \<Longrightarrow> f x = Inr (k x)) \<Longrightarrow> mapE f xs = Inr (map k xs)"
  by (induction xs) auto

lemma case_sum_Inr:
  "(case s of Inl e \<Rightarrow> Inl e | Inr v \<Rightarrow> f v) = Inr y \<longleftrightarrow> (\<exists>v. s = Inr v \<and> f v = Inr y)"
  by (cases s) auto

lemma getNodeDeps_Inr:
  assumes "getNodeDeps dg i = Inr ns" "n \<in> set ns"
  shows "g_node (graph dg) (node_id n) \<noteq> Unset \<and>
         node_info n = infoOrEmpty (g_node (graph dg) (node_id n)) \<and>
         getNodePkg dg (node_id n) = Inr (pkg n)"
proof -
  from assms(1) obtain ds where
    "mapE (\<lambda>depNodeId. case getGraphNode dg depNodeId of Inl e \<Rightarrow> Inl e
        | Inr graphNode \<Rightarrow> (case getNodePkg dg depNodeId of Inl e \<Rightarrow> Inl e
           | Inr p \<Rightarrow> Inr \<lparr>node_id = depNodeId, node_info = infoOrEmpty graphNode, pkg = p\<rparr>))
       ds = Inr ns"
    by (auto simp: getNodeDeps_def split: sum.splits)
  from mapE_Inr_set [OF this assms(2)] obtain x gn q where
    "getGraphNode dg x = Inr gn" "getNodePkg dg x = Inr q"
    "n = \<lparr>node_id = x, node_info = infoOrEmpty gn, pkg = q\<rparr>"
    by (auto simp: case_sum_Inr)
  with getGraphNode_Inr [OF this(1)] show ?thesis by auto
qed

lemma getPkgNodes_Inr:
  assumes "getPkgNodes dg p = Inr ns" "n \<in> set ns"
  shows "g_node (graph dg) (node_id n) \<noteq> Unset \<and>
         node_info n = infoOrEmpty (g_node (graph dg) (node_id n)) \<and>
         pkg n = readProperty (pkgs dg) (getPkgId p)"
proof -
  from assms(1) obtain ids where
    "mapE (\<lambda>nodeId. case getGraphNode dg nodeId of Inl e \<Rightarrow> Inl e
        | Inr graphNode \<Rightarrow>
            Inr \<lparr>node_id = nodeId, node_info = infoOrEmpty graphNode,
                 pkg = readProperty (pkgs dg) (getPkgId p)\<rparr>)
       ids = Inr ns"
    by (auto simp: getPkgNodes_def Let_def split: option.splits)
  from mapE_Inr_set [OF this assms(2)] obtain x gn where
    "getGraphNode dg x = Inr gn"
    "n = \<lparr>node_id = x, node_info = infoOrEmpty gn, pkg = readProperty (pkgs dg) (getPkgId p)\<rparr>"
    by (auto simp: case_sum_Inr)
  with getGraphNode_Inr [OF this(1)] show ?thesis by auto
qed

text \<open>
  Claim C10. Every node view returned by \<^verbatim>\<open>getNode\<close>, \<^verbatim>\<open>getNodeDeps\<close> or \<^verbatim>\<open>getPkgNodes\<close>
  has an info: the empty object when the stored node has no info, and the stored info
  otherwise; a view returned for an id that is no node of the graph, which then names a
  member of \<^verbatim>\<open>Object.prototype\<close>, has the empty object. The info field of a view is never
  absent: its type has no undefined value.
\<close>

theorem node_view_info_never_absent:
  "(getNode dg i = Inr n \<longrightarrow>
      node_id n = i \<and>
      ((\<exists>lbl. nodeLabel (graph dg) (node_id n) = Some lbl \<and>
           (info lbl = None \<longrightarrow> node_info n = emptyInfo) \<and>
           (\<forall>x. info lbl = Some x \<longrightarrow> node_info n = x)) \<or>
        (nodeLabel (graph dg) (node_id n) = None \<and> node_id n \<in> set objectPrototypeKeys \<and>
         node_info n = emptyInfo))) \<and>
   (getNodeDeps dg i = Inr ns \<longrightarrow>
      list_all (\<lambda>n.
        (\<exists>lbl. nodeLabel (graph dg) (node_id n) = Some lbl \<and>
           (info lbl = None \<longrightarrow> node_info n = emptyInfo) \<and>
           (\<forall>x. info lbl = Some x \<longrightarrow> node_info n = x)) \<or>
        (nodeLabel (graph dg) (node_id n) = None \<and> node_id n \<in> set objectPrototypeKeys \<and>
         node_info n = emptyInfo)) ns) \<and>
   (getPkgNodes dg p = Inr ms \<longrightarrow>
      list_all (\<lambda>n.
        (\<exists>lbl. nodeLabel (graph dg) (node_id n) = Some lbl \<and>
           (info lbl = None \<longrightarrow> node_info n = emptyInfo) \<and>
           (\<forall>x. info lbl = Some x \<longrightarrow> node_info n = x)) \<or>
        (nodeLabel (graph dg) (node_id n) = None \<and> node_id n \<in> set objectPrototypeKeys \<and>
         node_info n = emptyInfo)) ms)"
proof (intro conjI impI)
  assume a: "getNode dg i = Inr n"
  from getNode_Inr [OF a] show "node_id n = i" by simp
  from getNode_Inr [OF a] infoOrEmpty_cases [of "graph dg" "node_id n", OF refl]
  show "(\<exists>lbl. nodeLabel (graph dg) (node_id n) = Some lbl \<and>
           (info lbl = None \<longrightarrow> node_info n = emptyInfo) \<and>
           (\<forall>x. info lbl = Some x \<longrightarrow> node_info n = x)) \<or>
        (nodeLabel (graph dg) (node_id n) = None \<and> node_id n \<in> set objectPrototypeKeys \<and>
         node_info n = emptyInfo)"
    by simp
next
  assume a: "getNodeDeps dg i = Inr ns"
  show "list_all (\<lambda>n.
        (\<exists>lbl. nodeLabel (graph dg) (node_id n) = Some lbl \<and>
           (info lbl = None \<longrightarrow> node_info n = emptyInfo) \<and>
           (\<forall>x. info lbl = Some x \<longrightarrow> node_info n = x)) \<or>
        (nodeLabel (graph dg) (node_id n) = None \<and> node_id n \<in> set objectPrototypeKeys \<and>
         node_info n = emptyInfo)) ns"
    unfolding list_all_iff
  proof
    fix n assume "n \<in> set ns"
    from getNodeDeps_Inr [OF a this] infoOrEmpty_cases [of "graph dg" "node_id n", OF refl]
    show "(\<exists>lbl. nodeLabel (graph dg) (node_id n) = Some lbl \<and>
           (info lbl = None \<longrightarrow> node_info n = emptyInfo) \<and>
           (\<forall>x. info lbl = Some x \<longrightarrow> node_info n = x)) \<or>
        (nodeLabel (graph dg) (node_id n) = None \<and> node_id n \<in> set objectPrototypeKeys \<and>
         node_info n = emptyInfo)"
      by simp
  qed
next
  assume a: "getPkgNodes dg p = Inr ms"
  show "list_all (\<lambda>n.
        (\<exists>lbl. nodeLabel (graph dg) (node_id n) = Some lbl \<and>
           (info lbl = None \<longrightarrow> node_info n = emptyInfo) \<and>
           (\<forall>x. info lbl = Some x \<longrightarrow> node_info n = x)) \<or>
        (nodeLabel (graph dg) (node_id n) = None \<and> node_id n \<in> set objectPrototypeKeys \<and>
         node_info n = emptyInfo)) ms"
    unfolding list_all_iff
  proof
    fix n assume "n \<in> set ms"
    from getPkgNodes_Inr [OF a this] infoOrEmpty_cases [of "graph dg" "node_id n", OF refl]
    show "(\<exists>lbl. nodeLabel (graph dg) (node_id n) = Some lbl \<and>
           (info lbl = None \<longrightarrow> node_info n = emptyInfo) \<and>
           (\<forall>x. info lbl = Some x \<longrightarrow> node_info n = x)) \<or>
        (nodeLabel (graph dg) (node_id n) = None \<and> node_id n \<in> set objectPrototypeKeys \<and>
         node_info n = emptyInfo)"
      by simp
  qed
qed

theorem node_view_info_never_absent_witness:
  "getNode diamond ''r'' = Inr \<lparr>node_id = ''r'', node_info = emptyInfo, pkg = Own (mkPkg ''A'' ''1'' 0)\<rparr> \<and>
   node_id \<lparr>node_id = ''r'', node_info = emptyInfo, pkg = Own (mkPkg ''A'' ''1'' 0)\<rparr> = ''r'' \<and>
   ((\<exists>lbl. nodeLabel (graph diamond) (node_id \<lparr>node_id = ''r'', node_info = emptyInfo, pkg = Own (mkPkg ''A'' ''1'' 0)\<rparr>) = Some lbl \<and>
      (info lbl = None \<longrightarrow> node_info \<lparr>node_id = ''r'', node_info = emptyInfo, pkg = Own (mkPkg ''A'' ''1'' 0)\<rparr> = emptyInfo) \<and>
      (\<forall>x. info lbl = Some x \<longrightarrow> node_info \<lparr>node_id = ''r'', node_info = emptyInfo, pkg = Own (mkPkg ''A'' ''1'' 0)\<rparr> = x)) \<or>
    (nodeLabel (graph diamond) (node_id \<lparr>node_id = ''r'', node_info = emptyInfo, pkg = Own (mkPkg ''A'' ''1'' 0)\<rparr>) = None \<and>
     node_id \<lparr>node_id = ''r'', node_info = emptyInfo, pkg = Own (mkPkg ''A'' ''1'' 0)\<rparr> \<in> set objectPrototypeKeys \<and> node_info \<lparr>node_id = ''r'', node_info = emptyInfo, pkg = Own (mkPkg ''A'' ''1'' 0)\<rparr> = emptyInfo)) \<and>
   getNodeDeps diamond ''r'' = Inr [\<lparr>node_id = ''b'', node_info = emptyInfo, pkg = Own (mkPkg ''B'' ''1'' 1)\<rparr>,
          \<lparr>node_id = ''c'', node_info = emptyInfo, pkg = Own (mkPkg ''C'' ''1'' 2)\<rparr>] \<and>
   list_all (\<lambda>n.
        (\<exists>lbl. nodeLabel (graph diamond) (node_id n) = Some lbl \<and>
           (info lbl = None \<longrightarrow> node_info n = emptyInfo) \<and>
           (\<forall>x. info lbl = Some x \<longrightarrow> node_info n = x)) \<or>
        (nodeLabel (graph diamond) (node_id n) = None \<and> node_id n \<in> set objectPrototypeKeys \<and>
         node_info n = emptyInfo)) [\<lparr>node_id = ''b'', node_info = emptyInfo, pkg = Own (mkPkg ''B'' ''1'' 1)\<rparr>,
          \<lparr>node_id = ''c'', node_info = emptyInfo, pkg = Own (mkPkg ''C'' ''1'' 2)\<rparr>] \<and>
   getPkgNodes diamond \<lparr>name = ''D'', version = Present ''1''\<rparr> = Inr [\<lparr>node_id = ''d'', node_info = emptyInfo, pkg = Own (mkPkg ''D'' ''1'' 3)\<rparr>] \<and>
   list_all (\<lambda>n.
        (\<exists>lbl. nodeLabel (graph diamond) (node_id n) = Some lbl \<and>
           (info lbl = None \<longrightarrow> node_info n = emptyInfo) \<and>
           (\<forall>x. info lbl = Some x \<longrightarrow> node_info n = x)) \<or>
        (nodeLabel (graph diamond) (node_id n) = None \<and> node_id n \<in> set objectPrototypeKeys \<and>
         node_info n = emptyInfo)) [\<lparr>node_id = ''d'', node_info = emptyInfo, pkg = Own (mkPkg ''D'' ''1'' 3)\<rparr>]"
proof -
  have 1: "getNode diamond ''r'' = Inr \<lparr>node_id = ''r'', node_info = emptyInfo, pkg = Own (mkPkg ''A'' ''1'' 0)\<rparr>"
    by code_simp
  have 2: "getNodeDeps diamond ''r'' = Inr [\<lparr>node_id = ''b'', node_info = emptyInfo, pkg = Own (mkPkg ''B'' ''1'' 1)\<rparr>,
          \<lparr>node_id = ''c'', node_info = emptyInfo, pkg = Own (mkPkg ''C'' ''1'' 2)\<rparr>]"
    by code_simp
  have 3: "getPkgNodes diamond \<lparr>name = ''D'', version = Present ''1''\<rparr> = Inr [\<lparr>node_id = ''d'', node_info = emptyInfo, pkg = Own (mkPkg ''D'' ''1'' 3)\<rparr>]"
    by code_simp
  note c = node_view_info_never_absent [of diamond "''r''" "\<lparr>node_id = ''r'', node_info = emptyInfo, pkg = Own (mkPkg ''A'' ''1'' 0)\<rparr>" "[\<lparr>node_id = ''b'', node_info = emptyInfo, pkg = Own (mkPkg ''B'' ''1'' 1)\<rparr>,
          \<lparr>node_id = ''c'', node_info = emptyInfo, pkg = Own (mkPkg ''C'' ''1'' 2)\<rparr>]"
      "\<lparr>name = ''D'', version = Present ''1''\<rparr>" "[\<lparr>node_id = ''d'', node_info = emptyInfo, pkg = Own (mkPkg ''D'' ''1'' 3)\<rparr>]"]
  show ?thesis
    apply (intro conjI)
          apply (rule 1)
         apply (rule conjunct1 [OF mp [OF conjunct1 [OF c] 1] ])
        apply (rule conjunct2 [OF mp [OF conjunct1 [OF c] 1] ])
       apply (rule 2)
      apply (rule mp [OF conjunct1 [OF conjunct2 [OF c] ] 2])
     apply (rule 3)
    apply (rule mp [OF conjunct2 [OF conjunct2 [OF c] ] 3])
    done
qed

lemma getPkgId_not_prototype: "getPkgId p \<notin> set objectPrototypeKeys"
proof -
  have "CHR ''@'' \<in> set (getPkgId p)" by (simp add: getPkgId_def)
  moreover have "\<forall>k\<in>set objectPrototypeKeys. CHR ''@'' \<notin> set k"
    by (simp add: objectPrototypeKeys_def)
  ultimately show ?thesis by blast
qed

lemma readProperty_getPkgId:
  "readProperty obj (getPkgId p) =
     (case map_of obj (getPkgId p) of Some v \<Rightarrow> Own v | None \<Rightarrow> Unset)"
  by (simp add: readProperty_def getPkgId_not_prototype)

lemma getPkgNodes_never_NoSuchPkg: "getPkgNodes dg p \<noteq> Inl (NoSuchPkg s)"
proof -
  have "mapE (\<lambda>nodeId. case getGraphNode dg nodeId of Inl e \<Rightarrow> Inl e
       | Inr graphNode \<Rightarrow> Inr \<lparr>node_id = nodeId, node_info = infoOrEmpty graphNode, pkg = q\<rparr>) ids
       \<noteq> Inl (NoSuchPkg s)" for ids q
    by (induction ids) (auto simp: getGraphNode_def split: sum.splits slot.splits)
  then show ?thesis
    by (simp add: getPkgNodes_def Let_def split: option.splits)
qed

lemma unregistered_getPkgNodes:
  assumes "valid dg" "map_of (pkgs dg) (getPkgId p) = None"
  shows "getPkgNodes dg p = Inl TypeError"
proof -
  from assms have "getPkgId p \<notin> set (map fst (pkgNodes dg))"
    by (simp add: valid_def map_of_eq_None_iff)
  then have "map_of (pkgNodes dg) (getPkgId p) = None"
    by (simp add: map_of_eq_None_iff)
  then show ?thesis by (simp add: getPkgNodes_def)
qed

text \<open>
  Claim C6. \<^verbatim>\<open>getPkgNodes\<close> for a package that is not registered: on the diamond, the
  package \<open>X@1\<close> is not in the registry, and \<^verbatim>\<open>getPkgNodes\<close> fails with a TypeError, where
  \<^verbatim>\<open>getPkgNodeIds\<close> fails with the error no such pkg. The claim asks for that error.
\<close>

theorem getPkgNodes_unregistered_TypeError:
  "map_of (pkgs diamond) (getPkgId \<lparr>name = ''X'', version = Present ''1''\<rparr>) = None \<and>
   getPkgNodes diamond \<lparr>name = ''X'', version = Present ''1''\<rparr> = Inl TypeError \<and>
   getPkgNodeIds diamond \<lparr>name = ''X'', version = Present ''1''\<rparr> = Inl (NoSuchPkg ''X@1'')"
  by code_simp

lemma registry_same_identity:
  assumes ok: "registry_ok ps" and p: "(k, p) \<in> set ps" and q: "(k', q) \<in> set ps"
  shows "addr p = addr q \<longleftrightarrow> name p = name q \<and> version p = version q"
proof
  assume "addr p = addr q"
  with ok p q have "p = q" by (fastforce simp: registry_ok_def list_all_iff)
  then show "name p = name q \<and> version p = version q" by simp
next
  assume "name p = name q \<and> version p = version q"
  then have "getPkgId p = getPkgId q" by (simp add: getPkgId_def)
  moreover from ok p q have "k = getPkgId p" "k' = getPkgId q"
    by (auto simp: registry_ok_def list_all_iff)
  ultimately have "k = k'" by simp
  moreover from ok have "distinct (map fst ps)" by (simp add: registry_ok_def)
  ultimately have "p = q" using p q by (metis eq_key_imp_eq_value)
  then show "addr p = addr q" by simp
qed

text \<open>
  Claim C8. For an instance built by the constructor from a well-formed registry,
  \<^verbatim>\<open>getDepPkgs\<close> is \<^verbatim>\<open>getPkgs\<close> without the packages that have the name and the version of
  the root package. The constructor removes the object registered for the root package id,
  compared by reference; in a well-formed registry that is the same selection.
\<close>

theorem getDepPkgs_excludes_root_identity:
  assumes ok: "registry_ok ps" and new: "DepGraphImpl_new g root ps pns = Inr dg"
  shows "getPkgs dg = map snd ps \<and>
         getDepPkgs dg = filter (\<lambda>p. \<not> isEqualPkg (Own p) (rootPkg dg)) (getPkgs dg)"
proof -
  from new obtain k where
    dg: "dg = \<lparr>pkgs = ps, pkgNodes = pns, pkgList = map snd ps,
               depPkgsList = filter (\<lambda>p. notSameRef p (readProperty ps k)) (map snd ps),
               graph = g, rootNodeId = root, rootPkgId = k,
               countNodePathsToRootCache = Map.empty, hasCyclesMemo = None\<rparr>"
    by (auto simp: DepGraphImpl_new_def split: sum.splits)
  have root: "rootPkg dg = readProperty ps k"
    by (simp add: dg rootPkg_def)
  have "notSameRef p (readProperty ps k) \<longleftrightarrow> \<not> isEqualPkg (Own p) (readProperty ps k)"
    if "p \<in> set (map snd ps)" for p
  proof (cases "map_of ps k")
    case None
    then show ?thesis by (simp add: notSameRef_def isEqualPkg_def readProperty_def)
  next
    case (Some q)
    then have q: "(k, q) \<in> set ps" by (rule map_of_SomeD)
    from that obtain k' where "(k', p) \<in> set ps" by auto
    from registry_same_identity [OF ok this q] Some show ?thesis
      by (simp add: notSameRef_def isEqualPkg_def readProperty_def)
  qed
  then have "filter (\<lambda>p. notSameRef p (readProperty ps k)) (map snd ps) =
      filter (\<lambda>p. \<not> isEqualPkg (Own p) (readProperty ps k)) (map snd ps)"
    by (intro filter_cong) auto
  then show ?thesis
    by (simp add: getPkgs_def getDepPkgs_def root) (simp add: dg)
qed

theorem getDepPkgs_excludes_root_identity_witness:
  "registry_ok diamondPkgs \<and>
   DepGraphImpl_new diamondGraph ''r'' diamondPkgs diamondPkgNodes = Inr diamond \<and>
   getPkgs diamond = map snd diamondPkgs \<and>
   getDepPkgs diamond = filter (\<lambda>p. \<not> isEqualPkg (Own p) (rootPkg diamond)) (getPkgs diamond)"
proof -
  have 1: "registry_ok diamondPkgs" by code_simp
  have 2: "DepGraphImpl_new diamondGraph ''r'' diamondPkgs diamondPkgNodes = Inr diamond"
    by (simp add: DepGraphImpl_new_def diamond_def mkDepGraph_def g_node_def readProperty_def
        pkgIdKey_def diamondGraph_def mkNode_def)
  from getDepPkgs_excludes_root_identity [OF 1 2] 1 2 show ?thesis by simp
qed

subsection \<open>Results of the two loops\<close>

lemma collectPaths_Inl:
  "collectPaths rs = Some (Inl e) \<Longrightarrow> Some (Inl e) \<in> set rs"
  by (induction rs) (auto split: option.splits sum.splits)

lemma mapE_Inl: "mapE f xs = Inl e \<Longrightarrow> \<exists>x\<in>set xs. f x = Inl e"
  by (induction xs) (auto split: sum.splits)

lemma mapE_prefix: "mapE (\<lambda>path. Inr (p # path)) paths = Inr (map ((#) p) paths)"
  by (induction paths) auto

lemma collectPaths_all_Inr:
  "collectPaths (map (\<lambda>P. Some (Inr (h P))) Pss) = Some (Inr (concat (map h Pss)))"
  by (induction Pss) auto

lemma collectPaths_mono:
  "(\<And>x v. x \<in> set xs \<Longrightarrow> f x = Some v \<Longrightarrow> g x = Some v) \<Longrightarrow>
   collectPaths (map f xs) = Some r \<Longrightarrow> collectPaths (map g xs) = Some r"
proof (induction xs arbitrary: r)
  case Nil
  then show ?case by simp
next
  case (Cons x xs)
  from Cons.prems(2) obtain v where v: "f x = Some v"
    by (auto split: option.splits)
  with Cons.prems(1) have gv: "g x = Some v" by simp
  show ?case
  proof (cases v)
    case (Inl e)
    with v gv Cons.prems(2) show ?thesis by auto
  next
    case (Inr out)
    with v Cons.prems(2) obtain r' where r': "collectPaths (map f xs) = Some r'"
      by (auto split: option.splits)
    with Cons.IH Cons.prems(1) have "collectPaths (map g xs) = Some r'" by simp
    with r' v gv Inr Cons.prems(2) show ?thesis by simp
  qed
qed

lemma list_all2_uniform:
  assumes "list_all2 (\<lambda>x y. \<exists>k::nat. \<forall>f\<ge>k. Q f x y) xs ys"
  shows "\<exists>K. \<forall>f\<ge>K. list_all2 (Q f) xs ys"
  using assms
proof (induction rule: list_all2_induct)
  case Nil
  then show ?case by simp
next
  case (Cons x xs y ys)
  then obtain k K where "\<forall>f\<ge>k. Q f x y" "\<forall>f\<ge>K. list_all2 (Q f) xs ys" by blast
  then have "\<forall>f\<ge>max k K. list_all2 (Q f) (x # xs) (y # ys)" by simp
  then show ?case by blast
qed

lemma list_all2_exists:
  "(\<And>x. x \<in> set xs \<Longrightarrow> \<exists>y. R x y) \<Longrightarrow> \<exists>ys. list_all2 R xs ys"
proof (induction xs)
  case Nil
  then show ?case by simp
next
  case (Cons x xs)
  then obtain y ys where "R x y" "list_all2 R xs ys" by (meson list.set_intros)
  then have "list_all2 R (x # xs) (y # ys)" by simp
  then show ?case by blast
qed

subsection \<open>Upward paths\<close>

lemma accessors_upd_cache [simp]:
  "getNodeParentsNodeIds (dg\<lparr>countNodePathsToRootCache := c\<rparr>) = getNodeParentsNodeIds dg"
  "getNodePkg (dg\<lparr>countNodePathsToRootCache := c\<rparr>) = getNodePkg dg"
  "getPkgNodeIds (dg\<lparr>countNodePathsToRootCache := c\<rparr>) p = getPkgNodeIds dg p"
  by (auto simp: getNodeParentsNodeIds_def getNodePkg_def getGraphNode_def getPkgNodeIds_def
      fun_eq_iff Let_def split: option.splits sum.splits slot.splits)

lemma accessors_upd_memo [simp]:
  "getNodeParentsNodeIds (dg\<lparr>hasCyclesMemo := m\<rparr>) = getNodeParentsNodeIds dg"
  "getNodePkg (dg\<lparr>hasCyclesMemo := m\<rparr>) = getNodePkg dg"
  "getPkgNodeIds (dg\<lparr>hasCyclesMemo := m\<rparr>) p = getPkgNodeIds dg p"
  by (auto simp: getNodeParentsNodeIds_def getNodePkg_def getGraphNode_def getPkgNodeIds_def
      fun_eq_iff Let_def split: option.splits sum.splits slot.splits)

lemma paths_upd_cache [simp]:
  "pathsFromNodeToRoot fuel (dg\<lparr>countNodePathsToRootCache := c\<rparr>) n = pathsFromNodeToRoot fuel dg n"
  by (induction fuel arbitrary: n) (simp_all cong: sum.case_cong option.case_cong if_cong)

lemma paths_upd_memo [simp]:
  "pathsFromNodeToRoot fuel (dg\<lparr>hasCyclesMemo := m\<rparr>) n = pathsFromNodeToRoot fuel dg n"
  by (induction fuel arbitrary: n) (simp_all cong: sum.case_cong option.case_cong if_cong)

lemma paths_fuel_mono:
  "pathsFromNodeToRoot k dg n = Some r \<Longrightarrow> k \<le> k' \<Longrightarrow> pathsFromNodeToRoot k' dg n = Some r"
proof (induction k arbitrary: k' n r)
  case 0
  then show ?case by simp
next
  case (Suc k)
  from Suc.prems(2) obtain j where k': "k' = Suc j" and kj: "k \<le> j"
    by (cases k') auto
  show ?case
  proof (cases "getNodeParentsNodeIds dg n")
    case (Inl e)
    with Suc.prems(1) show ?thesis by (simp add: k')
  next
    case (Inr ps)
    show ?thesis
    proof (cases "ps = []")
      case True
      with Inr Suc.prems(1) show ?thesis by (simp add: k')
    next
      case False
      let ?g = "\<lambda>m id'. case pathsFromNodeToRoot m dg id' of
                       None \<Rightarrow> None
                     | Some (Inl e) \<Rightarrow> Some (Inl e)
                     | Some (Inr paths) \<Rightarrow>
                         Some (mapE (\<lambda>path.
                                      case getNodePkg dg n of
                                        Inl e \<Rightarrow> Inl e
                                      | Inr p \<Rightarrow> Inr (p # path))
                                    paths)"
      from Inr False Suc.prems(1) have "collectPaths (map (?g k) ps) = Some r" by simp
      moreover have "?g j x = Some v" if "?g k x = Some v" for x v
      proof -
        from that obtain w where "pathsFromNodeToRoot k dg x = Some w"
          by (auto split: option.splits)
        with Suc.IH [OF this kj] that show ?thesis by simp
      qed
      ultimately have "collectPaths (map (?g j) ps) = Some r"
        by (rule collectPaths_mono [rotated])
      with Inr False show ?thesis by (simp add: k')
    qed
  qed
qed

lemma paths_errors:
  "pathsFromNodeToRoot fuel dg n = Some (Inl e) \<Longrightarrow> \<exists>i. e = NoSuchNode i"
proof (induction fuel arbitrary: n)
  case 0
  then show ?case by simp
next
  case (Suc fuel)
  have pk: "\<exists>i. e = NoSuchNode i" if "getNodePkg dg m = Inl e" for m
    using that
    by (auto simp: getNodePkg_def getGraphNode_def pkgIdKey_def split: slot.splits sum.splits)
  show ?case
  proof (cases "getNodeParentsNodeIds dg n")
    case (Inl e')
    with Suc.prems show ?thesis
      by (auto simp: getNodeParentsNodeIds_def split: option.splits)
  next
    case (Inr ps)
    show ?thesis
    proof (cases "ps = []")
      case True
      with Inr Suc.prems pk show ?thesis by (auto split: sum.splits)
    next
      case False
      with Inr Suc.prems obtain x where x: "x \<in> set ps" and
        "(case pathsFromNodeToRoot fuel dg x of
                       None \<Rightarrow> None
                     | Some (Inl e) \<Rightarrow> Some (Inl e)
                     | Some (Inr paths) \<Rightarrow>
                         Some (mapE (\<lambda>path.
                                      case getNodePkg dg n of
                                        Inl e \<Rightarrow> Inl e
                                      | Inr p \<Rightarrow> Inr (p # path))
                                    paths)) = Some (Inl e)"
        by (auto dest!: collectPaths_Inl)
      then consider "pathsFromNodeToRoot fuel dg x = Some (Inl e)"
        | paths where "mapE (\<lambda>path. case getNodePkg dg n of
                                        Inl e \<Rightarrow> Inl e
                                      | Inr p \<Rightarrow> Inr (p # path)) paths = Inl e"
        by (auto split: option.splits sum.splits)
      then show ?thesis
      proof cases
        case 1
        then show ?thesis by (rule Suc.IH)
      next
        case 2
        from mapE_Inl [OF this] pk show ?thesis by (cases "getNodePkg dg n") auto
      qed
    qed
  qed
qed

lemma paths_of_upwardPaths:
  "upwardPaths dg n P \<Longrightarrow> \<exists>k. \<forall>fuel\<ge>k. pathsFromNodeToRoot fuel dg n = Some (Inr P)"
proof (induction rule: upwardPaths.induct)
  case (noParents n p)
  have "pathsFromNodeToRoot fuel dg n = Some (Inr [ [p] ])" if "fuel \<ge> 1" for fuel
  proof -
    from that obtain m where "fuel = Suc m" by (cases fuel) auto
    with noParents show ?thesis by (simp add: getNodeParentsNodeIds_def)
  qed
  then show ?case by blast
next
  case (withParents n ps p Pss)
  from withParents(4)
  have "list_all2 (\<lambda>x P. \<exists>k. \<forall>fuel\<ge>k. pathsFromNodeToRoot fuel dg x = Some (Inr P)) ps Pss"
    by (rule list_all2_mono) simp
  from list_all2_uniform [OF this] obtain K where
    K: "\<forall>fuel\<ge>K. list_all2 (\<lambda>x P. pathsFromNodeToRoot fuel dg x = Some (Inr P)) ps Pss"
    by blast
  have "pathsFromNodeToRoot fuel dg n = Some (Inr (concat (map (map ((#) p)) Pss)))"
    if "fuel \<ge> Suc K" for fuel
  proof -
    from that obtain m where m: "fuel = Suc m" "m \<ge> K" by (cases fuel) auto
    with K have "list_all2 (\<lambda>x P. pathsFromNodeToRoot m dg x = Some (Inr P)) ps Pss" by simp
    then have "map (\<lambda>id'. case pathsFromNodeToRoot m dg id' of
                       None \<Rightarrow> None
                     | Some (Inl e) \<Rightarrow> Some (Inl e)
                     | Some (Inr paths) \<Rightarrow>
                         Some (mapE (\<lambda>path.
                                      case getNodePkg dg n of
                                        Inl e \<Rightarrow> Inl e
                                      | Inr p \<Rightarrow> Inr (p # path)) paths)) ps
        = map (\<lambda>P. Some (Inr (map ((#) p) P))) Pss"
      by (induction rule: list_all2_induct) (simp_all add: withParents(3) mapE_prefix)
    with withParents(1-3) m show ?thesis
      by (simp add: getNodeParentsNodeIds_def collectPaths_all_Inr)
  qed
  then show ?case by blast
qed


lemma paths_agree:
  assumes "upwardPaths dg n P" "pathsFromNodeToRoot fuel dg n = Some (Inr Q)"
  shows "Q = P"
proof -
  from paths_of_upwardPaths [OF assms(1)] obtain k where
    k: "\<forall>fuel\<ge>k. pathsFromNodeToRoot fuel dg n = Some (Inr P)" by blast
  from paths_fuel_mono [OF assms(2), of "max fuel k"] k show ?thesis by simp
qed

lemma upwardPaths_exists:
  assumes ok: "graph_ok (graph dg)" and ac: "isAcyclic (graph dg)"
  shows "hasNode (graph dg) n \<Longrightarrow> \<exists>P. upwardPaths dg n P"
proof -
  have "wf (set (gedges (graph dg)))"
    using ac by (simp add: isAcyclic_def finite_acyclic_wf)
  then show "hasNode (graph dg) n \<Longrightarrow> \<exists>P. upwardPaths dg n P"
  proof (induction n rule: wf_induct_rule)
    case (less n)
    let ?ps = "jsKeys (map fst (filter (\<lambda>e. snd e = n) (gedges (graph dg))))"
    from less.prems have ps: "predecessors (graph dg) n = Some ?ps"
      by (simp add: predecessors_def)
    from less.prems obtain lbl where "g_node (graph dg) n = Own lbl"
      by (auto simp: hasNode_nodeLabel g_node_Own)
    then have pk: "getNodePkg dg n = Inr (readProperty (pkgs dg) (pkgId lbl))"
      by (simp add: getNodePkg_def getGraphNode_def pkgIdKey_def)
    show ?case
    proof (cases "?ps = []")
      case True
      with ps pk show ?thesis by (auto intro: upwardPaths.noParents)
    next
      case False
      have "\<exists>P. upwardPaths dg x P" if "x \<in> set ?ps" for x
      proof -
        from that have "(x, n) \<in> set (gedges (graph dg))" by auto
        moreover from that have "hasNode (graph dg) x"
          using predecessors_in_graph [OF ok less.prems ps] by simp
        ultimately show ?thesis by (rule less.IH)
      qed
      from list_all2_exists [of ?ps "upwardPaths dg", OF this] obtain Pss
        where "list_all2 (upwardPaths dg) ?ps Pss" by blast
      from upwardPaths.withParents [OF ps False pk this] show ?thesis by blast
    qed
  qed
qed

subsection \<open>The memoized count\<close>

lemma valid_upd [simp]:
  "valid (dg\<lparr>countNodePathsToRootCache := c\<rparr>) = valid dg"
  "valid (dg\<lparr>hasCyclesMemo := m\<rparr>) = valid dg"
  by (simp_all add: valid_def rootPkg_def)

lemma cache_agrees_upd [simp]:
  "cache_agrees (dg\<lparr>countNodePathsToRootCache := c'\<rparr>) c = cache_agrees dg c"
  "cache_agrees (dg\<lparr>hasCyclesMemo := m\<rparr>) c = cache_agrees dg c"
  by (simp_all add: cache_agrees_def)

lemma cache_agrees_insert:
  assumes "upwardPaths dg n P" "cache_agrees dg c"
  shows "cache_agrees dg (c(n \<mapsto> length P))"
proof -
  from paths_of_upwardPaths [OF assms(1)] obtain k where
    "pathsFromNodeToRoot k dg n = Some (Inr P)" by blast
  with assms(2) show ?thesis
    unfolding cache_agrees_def by (metis fun_upd_apply option.inject)
qed

lemma count_cached:
  assumes "upwardPaths dg n P" "cache_agrees dg c" "c n = Some v"
  shows "countNodePathsToRoot (Suc m) (dg\<lparr>countNodePathsToRootCache := c\<rparr>) n =
         Some (Inr (length P), dg\<lparr>countNodePathsToRootCache := c\<rparr>)"
proof -
  from assms(2,3) obtain fuel Q where "pathsFromNodeToRoot fuel dg n = Some (Inr Q)" "v = length Q"
    unfolding cache_agrees_def by blast
  with paths_agree [OF assms(1)] have "v = length P" by blast
  with assms(3) show ?thesis by simp
qed

lemma reduceCount_total:
  assumes "list_all2 (\<lambda>x P. \<forall>c. cache_agrees dg c \<longrightarrow>
             (\<exists>c'. F (dg\<lparr>countNodePathsToRootCache := c\<rparr>) x =
                     Some (Inr (length P), dg\<lparr>countNodePathsToRootCache := c'\<rparr>) \<and>
                   cache_agrees dg c')) xs Pss"
    and "cache_agrees dg c"
  shows "\<exists>c'. reduceCount F xs acc (dg\<lparr>countNodePathsToRootCache := c\<rparr>) =
               Some (Inr (acc + sum_list (map length Pss)), dg\<lparr>countNodePathsToRootCache := c'\<rparr>) \<and>
             cache_agrees dg c'"
  using assms
proof (induction arbitrary: acc c rule: list_all2_induct)
  case Nil
  then show ?case by auto
next
  case (Cons x xs P Pss)
  from Cons.hyps(1) Cons.prems obtain c1 where
    c1: "F (dg\<lparr>countNodePathsToRootCache := c\<rparr>) x =
           Some (Inr (length P), dg\<lparr>countNodePathsToRootCache := c1\<rparr>)" "cache_agrees dg c1"
    by blast
  from Cons.IH [OF c1(2), of "acc + length P"] c1(1) show ?case
    by (simp add: add.assoc)
qed

lemma count_of_upwardPaths:
  "upwardPaths dg n P \<Longrightarrow>
   \<exists>k. \<forall>fuel\<ge>k. \<forall>c. cache_agrees dg c \<longrightarrow>
     (\<exists>c'. countNodePathsToRoot fuel (dg\<lparr>countNodePathsToRootCache := c\<rparr>) n =
             Some (Inr (length P), dg\<lparr>countNodePathsToRootCache := c'\<rparr>) \<and>
           cache_agrees dg c')"
proof (induction rule: upwardPaths.induct)
  case (noParents n p)
  have up: "upwardPaths dg n [ [p] ]"
    using noParents by (rule upwardPaths.noParents)
  have "\<exists>c'. countNodePathsToRoot fuel (dg\<lparr>countNodePathsToRootCache := c\<rparr>) n =
             Some (Inr (length [ [p] ]), dg\<lparr>countNodePathsToRootCache := c'\<rparr>) \<and>
           cache_agrees dg c'"
    if "fuel \<ge> 1" "cache_agrees dg c" for fuel c
  proof -
    from that obtain m where m: "fuel = Suc m" by (cases fuel) auto
    show ?thesis
    proof (cases "c n")
      case (Some v)
      from count_cached [OF up that(2) Some] that(2) show ?thesis
        unfolding m by blast
    next
      case None
      with noParents have "countNodePathsToRoot fuel (dg\<lparr>countNodePathsToRootCache := c\<rparr>) n =
          Some (Inr (length [ [p] ]), dg\<lparr>countNodePathsToRootCache := c(n \<mapsto> length [ [p] ])\<rparr>)"
        by (simp add: m getNodeParentsNodeIds_def)
      with cache_agrees_insert [OF up that(2)] show ?thesis by blast
    qed
  qed
  then show ?case by blast
next
  case (withParents n ps p Pss)
  let ?P = "concat (map (map ((#) p)) Pss)"
  from withParents(4) have "list_all2 (upwardPaths dg) ps Pss"
    by (rule list_all2_mono) simp
  from upwardPaths.withParents [OF withParents(1-3) this]
  have up: "upwardPaths dg n ?P" .
  have len: "length ?P = sum_list (map length Pss)"
    by (simp add: length_concat comp_def)
  from withParents(4)
  have "list_all2 (\<lambda>x P. \<exists>k. \<forall>fuel\<ge>k. \<forall>c. cache_agrees dg c \<longrightarrow>
     (\<exists>c'. countNodePathsToRoot fuel (dg\<lparr>countNodePathsToRootCache := c\<rparr>) x =
             Some (Inr (length P), dg\<lparr>countNodePathsToRootCache := c'\<rparr>) \<and>
           cache_agrees dg c')) ps Pss"
    by (rule list_all2_mono) simp
  from list_all2_uniform [OF this] obtain K where
    K: "\<And>fuel. fuel \<ge> K \<Longrightarrow> list_all2 (\<lambda>x P. \<forall>c. cache_agrees dg c \<longrightarrow>
     (\<exists>c'. countNodePathsToRoot fuel (dg\<lparr>countNodePathsToRootCache := c\<rparr>) x =
             Some (Inr (length P), dg\<lparr>countNodePathsToRootCache := c'\<rparr>) \<and>
           cache_agrees dg c')) ps Pss"
    by blast
  have "\<exists>c'. countNodePathsToRoot fuel (dg\<lparr>countNodePathsToRootCache := c\<rparr>) n =
             Some (Inr (length ?P), dg\<lparr>countNodePathsToRootCache := c'\<rparr>) \<and>
           cache_agrees dg c'"
    if "fuel \<ge> Suc K" "cache_agrees dg c" for fuel c
  proof -
    from that obtain m where m: "fuel = Suc m" "m \<ge> K" by (cases fuel) auto
    show ?thesis
    proof (cases "c n")
      case (Some v)
      from count_cached [OF up that(2) Some] that(2) show ?thesis
        unfolding m by blast
    next
      case None
      from reduceCount_total [OF K [OF m(2)] that(2), of 0] obtain c1 where
        c1: "reduceCount (countNodePathsToRoot m) ps 0 (dg\<lparr>countNodePathsToRootCache := c\<rparr>) =
               Some (Inr (length ?P), dg\<lparr>countNodePathsToRootCache := c1\<rparr>)" "cache_agrees dg c1"
        by (auto simp: len)
      with None withParents(1,2)
      have "countNodePathsToRoot fuel (dg\<lparr>countNodePathsToRootCache := c\<rparr>) n =
          Some (Inr (length ?P), dg\<lparr>countNodePathsToRootCache := c1(n \<mapsto> length ?P)\<rparr>)"
        by (simp add: m getNodeParentsNodeIds_def)
      with cache_agrees_insert [OF up c1(2)] show ?thesis by blast
    qed
  qed
  then show ?case by blast
qed

lemma upwardPaths_cong:
  assumes "graph dg' = graph dg" "pkgs dg' = pkgs dg"
  shows "upwardPaths dg n P \<Longrightarrow> upwardPaths dg' n P"
proof (induction rule: upwardPaths.induct)
  case (noParents n p)
  have "getNodePkg dg' n = getNodePkg dg n"
    by (simp add: getNodePkg_def getGraphNode_def assms cong: sum.case_cong)
  with noParents assms show ?case
    by (auto intro!: upwardPaths.noParents)
next
  case (withParents n ps p Pss)
  from withParents(4) have "list_all2 (upwardPaths dg') ps Pss"
    by (rule list_all2_mono) simp
  moreover have "getNodePkg dg' n = getNodePkg dg n"
    by (simp add: getNodePkg_def getGraphNode_def assms cong: sum.case_cong)
  ultimately show ?case
    using withParents(1-3) assms by (auto intro!: upwardPaths.withParents)
qed

lemma hasCycles_result:
  assumes "caches_ok dg"
  shows "hasCycles dg = (\<not> isAcyclic (graph dg), dg\<lparr>hasCyclesMemo := Some (\<not> isAcyclic (graph dg))\<rparr>)"
proof (cases "hasCyclesMemo dg")
  case None
  then show ?thesis by (simp add: hasCycles_def Let_def)
next
  case (Some b)
  with assms have b: "b = (\<not> isAcyclic (graph dg))" by (simp add: caches_ok_def)
  have "dg\<lparr>hasCyclesMemo := hasCyclesMemo dg\<rparr> = dg" by simp
  with Some b show ?thesis by (simp add: hasCycles_def)
qed

lemma occurrences_in_graph:
  assumes "valid dg" "map_of (pkgNodes dg) k = Some ids"
  shows "set ids = {n. \<exists>lbl. nodeLabel (graph dg) n = Some lbl \<and> pkgId lbl = k}"
    and "distinct ids"
proof -
  from assms(2) have mem: "(k, ids) \<in> set (pkgNodes dg)" by (rule map_of_SomeD)
  from assms(1) have all: "\<forall>kn\<in>set (pkgNodes dg). distinct (snd kn) \<and>
       set (snd kn) = set (map fst (filter (\<lambda>n. pkgId (snd n) = fst kn) (gnodes (graph dg))))"
    by (simp add: valid_def list_all_iff)
  from bspec [OF all mem] have d: "distinct ids" and
    s: "set ids = set (map fst (filter (\<lambda>n. pkgId (snd n) = k) (gnodes (graph dg))))"
    by simp_all
  from d show "distinct ids" .
  from assms(1) have "distinct (map fst (gnodes (graph dg)))"
    by (simp add: valid_def graph_ok_def)
  then have iff: "nodeLabel (graph dg) n = Some lbl \<longleftrightarrow> (n, lbl) \<in> set (gnodes (graph dg))" for n lbl
    by (simp add: nodeLabel_def)
  show "set ids = {n. \<exists>lbl. nodeLabel (graph dg) n = Some lbl \<and> pkgId lbl = k}"
  proof (intro set_eqI iffI)
    fix n assume "n \<in> set ids"
    with s obtain lbl where "(n, lbl) \<in> set (gnodes (graph dg))" "pkgId lbl = k" by auto
    with iff have "nodeLabel (graph dg) n = Some lbl \<and> pkgId lbl = k" by blast
    then show "n \<in> {n. \<exists>lbl. nodeLabel (graph dg) n = Some lbl \<and> pkgId lbl = k}" by blast
  next
    fix n assume "n \<in> {n. \<exists>lbl. nodeLabel (graph dg) n = Some lbl \<and> pkgId lbl = k}"
    then obtain lbl where "nodeLabel (graph dg) n = Some lbl" "pkgId lbl = k" by blast
    with iff have "(n, lbl) \<in> set (gnodes (graph dg))" "pkgId lbl = k" by blast+
    then have "n \<in> fst ` {x \<in> set (gnodes (graph dg)). pkgId (snd x) = k}"
      by (intro image_eqI [of _ _ "(n, lbl)"]) simp_all
    with s show "n \<in> set ids" by simp
  qed
qed

lemma registered_has_occurrences:
  assumes "valid dg" "map_of (pkgs dg) k = Some pi"
  shows "\<exists>ids. map_of (pkgNodes dg) k = Some ids"
proof -
  from assms(2) have "k \<in> set (map fst (pkgs dg))"
    by (metis map_of_eq_None_iff option.distinct(1) set_map)
  with assms(1) have "k \<in> set (map fst (pkgNodes dg))" by (simp add: valid_def)
  then show ?thesis
    by (metis map_of_eq_None_iff not_None_eq set_map)
qed

lemma getPkgNodes_registered:
  assumes "valid dg" "map_of (pkgs dg) (getPkgId p) = Some pi"
  shows "\<exists>ids ns. map_of (pkgNodes dg) (getPkgId p) = Some ids \<and>
           getPkgNodes dg p = Inr ns \<and> map node_id ns = ids \<and>
           (\<forall>n\<in>set ns. pkg n = Own pi)"
proof -
  from registered_has_occurrences [OF assms] obtain ids where
    ids: "map_of (pkgNodes dg) (getPkgId p) = Some ids" by blast
  let ?view = "\<lambda>i. \<lparr>node_id = i, node_info = infoOrEmpty (g_node (graph dg) i),
                      pkg = Own pi\<rparr>"
  have "mapE (\<lambda>nodeId. case getGraphNode dg nodeId of Inl e \<Rightarrow> Inl e
        | Inr graphNode \<Rightarrow>
            Inr \<lparr>node_id = nodeId, node_info = infoOrEmpty graphNode, pkg = Own pi\<rparr>) ids =
        Inr (map ?view ids)"
  proof (rule mapE_all_Inr)
    fix i assume "i \<in> set ids"
    with occurrences_in_graph(1) [OF assms(1) ids] obtain lbl where
      "nodeLabel (graph dg) i = Some lbl" by blast
    then have "g_node (graph dg) i = Own lbl" by (simp add: g_node_Own)
    then show "(case getGraphNode dg i of Inl e \<Rightarrow> Inl e
        | Inr graphNode \<Rightarrow>
            Inr \<lparr>node_id = i, node_info = infoOrEmpty graphNode, pkg = Own pi\<rparr>) = Inr (?view i)"
      by (simp add: getGraphNode_def)
  qed
  moreover have rp: "readProperty (pkgs dg) (getPkgId p) = Own pi"
    using assms(2) by (simp add: readProperty_def)
  ultimately have "getPkgNodes dg p = Inr (map ?view ids)"
    unfolding getPkgNodes_def Let_def ids rp by simp
  moreover have "map node_id (map ?view ids) = ids" by (simp add: comp_def)
  moreover have "\<forall>n\<in>set (map ?view ids). pkg n = Own pi" by simp
  ultimately show ?thesis using ids by blast
qed

subsection \<open>Errors of the upward queries\<close>

lemma reduceCount_Inl:
  "reduceCount f xs acc dg = Some (Inl e, dg') \<Longrightarrow> \<exists>dg0 x dg1. f dg0 x = Some (Inl e, dg1)"
proof (induction xs arbitrary: acc dg)
  case Nil
  then show ?case by simp
next
  case (Cons x xs)
  show ?case
  proof (cases "f dg x")
    case None
    with Cons.prems show ?thesis by simp
  next
    case (Some r)
    obtain v d where r: "r = (v, d)" by (cases r)
    show ?thesis
    proof (cases v)
      case (Inl e')
      with Some r Cons.prems show ?thesis by auto
    next
      case (Inr c)
      with Some r Cons.prems have "reduceCount f xs (acc + c) d = Some (Inl e, dg')" by simp
      then show ?thesis by (rule Cons.IH)
    qed
  qed
qed

lemma count_errors:
  "countNodePathsToRoot fuel dg n = Some (Inl e, dg') \<Longrightarrow> \<exists>i. e = NoSuchNode i"
proof (induction fuel arbitrary: dg n dg')
  case 0
  then show ?case by simp
next
  case (Suc fuel)
  show ?case
  proof (cases "countNodePathsToRootCache dg n")
    case (Some c)
    with Suc.prems show ?thesis by simp
  next
    case None
    show ?thesis
    proof (cases "getNodeParentsNodeIds dg n")
      case (Inl e')
      with None Suc.prems show ?thesis
        by (auto simp: getNodeParentsNodeIds_def split: option.splits)
    next
      case (Inr ps)
      show ?thesis
      proof (cases "ps = []")
        case True
        with None Inr Suc.prems show ?thesis by simp
      next
        case False
        with None Inr Suc.prems
        have "reduceCount (countNodePathsToRoot fuel) ps 0 dg = Some (Inl e, dg')"
          by (auto split: option.splits sum.splits prod.splits)
        from reduceCount_Inl [OF this] Suc.IH show ?thesis by blast
      qed
    qed
  qed
qed

lemma getPkgNodeIds_errors:
  "getPkgNodeIds dg p = Inl e \<Longrightarrow> e = NoSuchPkg (getPkgId p) \<or> e = TypeError"
  by (auto simp: getPkgNodeIds_def Let_def split: option.splits)

lemma pkgPathsToRoot_cyclic:
  "fst (hasCycles dg) \<Longrightarrow>
   pkgPathsToRoot fuel dg p = Some (Inl (CyclicUnsupported ''pkgPathsToRoot''), snd (hasCycles dg))"
  by (cases "hasCycles dg") (simp add: pkgPathsToRoot_def)

lemma countPathsToRoot_cyclic:
  "fst (hasCycles dg) \<Longrightarrow>
   countPathsToRoot fuel dg p = Some (Inl (CyclicUnsupported ''countPathsToRoot''), snd (hasCycles dg))"
  by (cases "hasCycles dg") (simp add: countPathsToRoot_def)

lemma pkgPathsToRoot_acyclic_errors:
  assumes "\<not> fst (hasCycles dg)" "pkgPathsToRoot fuel dg p = Some (Inl e, dg')"
  shows "e \<noteq> CyclicUnsupported s"
proof -
  obtain dg1 where h: "hasCycles dg = (False, dg1)"
    using assms(1) by (cases "hasCycles dg") auto
  show ?thesis
  proof (cases "getPkgNodeIds dg1 p")
    case (Inl e')
    with h assms(2) getPkgNodeIds_errors [OF Inl] show ?thesis
      by (auto simp: pkgPathsToRoot_def)
  next
    case (Inr ids)
    with h assms(2) have "collectPaths (map (pathsFromNodeToRoot fuel dg1) ids) = Some (Inl e)"
      by (auto simp: pkgPathsToRoot_def split: option.splits sum.splits)
    from collectPaths_Inl [OF this] obtain x where "pathsFromNodeToRoot fuel dg1 x = Some (Inl e)"
      by auto
    from paths_errors [OF this] show ?thesis by auto
  qed
qed

lemma countPathsToRoot_acyclic_errors:
  assumes "\<not> fst (hasCycles dg)" "countPathsToRoot fuel dg p = Some (Inl e, dg')"
  shows "e \<noteq> CyclicUnsupported s"
proof -
  obtain dg1 where h: "hasCycles dg = (False, dg1)"
    using assms(1) by (cases "hasCycles dg") auto
  show ?thesis
  proof (cases "getPkgNodeIds dg1 p")
    case (Inl e')
    with h assms(2) getPkgNodeIds_errors [OF Inl] show ?thesis
      by (auto simp: countPathsToRoot_def)
  next
    case (Inr ids)
    with h assms(2) have "reduceCount (countNodePathsToRoot fuel) ids 0 dg1 = Some (Inl e, dg')"
      by (auto simp: countPathsToRoot_def)
    from reduceCount_Inl [OF this] obtain d0 x d1 where
      "countNodePathsToRoot fuel d0 x = Some (Inl e, d1)" by blast
    from count_errors [OF this] show ?thesis by auto
  qed
qed

lemma upward_total:
  assumes v: "valid dg" and c: "caches_ok dg" and ac: "isAcyclic (graph dg)"
    and ids: "map_of (pkgNodes dg) k = Some ids"
  shows "\<exists>Pss. list_all2 (upwardPaths dg) ids Pss \<and>
     (\<exists>K. \<forall>fuel\<ge>K.
        collectPaths (map (pathsFromNodeToRoot fuel dg) ids) = Some (Inr (concat Pss)) \<and>
        (\<exists>c'. reduceCount (countNodePathsToRoot fuel) ids 0 dg =
                 Some (Inr (length (concat Pss)), dg\<lparr>countNodePathsToRootCache := c'\<rparr>) \<and>
               cache_agrees dg c'))"
proof -
  from v have ok: "graph_ok (graph dg)" by (simp add: valid_def)
  have "\<exists>P. upwardPaths dg x P" if "x \<in> set ids" for x
  proof -
    from that occurrences_in_graph(1) [OF v ids] have "hasNode (graph dg) x"
      by (auto simp: hasNode_nodeLabel)
    then show ?thesis by (rule upwardPaths_exists [OF ok ac])
  qed
  from list_all2_exists [of ids "upwardPaths dg", OF this] obtain Pss
    where Pss: "list_all2 (upwardPaths dg) ids Pss" by blast
  have "list_all2 (\<lambda>x P. \<exists>k. \<forall>fuel\<ge>k. pathsFromNodeToRoot fuel dg x = Some (Inr P) \<and>
      (\<forall>c. cache_agrees dg c \<longrightarrow>
        (\<exists>c'. countNodePathsToRoot fuel (dg\<lparr>countNodePathsToRootCache := c\<rparr>) x =
             Some (Inr (length P), dg\<lparr>countNodePathsToRootCache := c'\<rparr>) \<and>
           cache_agrees dg c'))) ids Pss"
    using Pss
  proof (rule list_all2_mono)
    fix x P assume up: "upwardPaths dg x P"
    from paths_of_upwardPaths [OF up] obtain k1 where
      k1: "\<And>fuel. fuel \<ge> k1 \<Longrightarrow> pathsFromNodeToRoot fuel dg x = Some (Inr P)" by blast
    from count_of_upwardPaths [OF up] obtain k2 where
      k2: "\<And>fuel. fuel \<ge> k2 \<Longrightarrow> \<forall>c. cache_agrees dg c \<longrightarrow>
        (\<exists>c'. countNodePathsToRoot fuel (dg\<lparr>countNodePathsToRootCache := c\<rparr>) x =
             Some (Inr (length P), dg\<lparr>countNodePathsToRootCache := c'\<rparr>) \<and>
           cache_agrees dg c')" by blast
    have "\<forall>fuel\<ge>max k1 k2. pathsFromNodeToRoot fuel dg x = Some (Inr P) \<and>
      (\<forall>c. cache_agrees dg c \<longrightarrow>
        (\<exists>c'. countNodePathsToRoot fuel (dg\<lparr>countNodePathsToRootCache := c\<rparr>) x =
             Some (Inr (length P), dg\<lparr>countNodePathsToRootCache := c'\<rparr>) \<and>
           cache_agrees dg c'))"
      using k1 k2 by simp
    then show "\<exists>k. \<forall>fuel\<ge>k. pathsFromNodeToRoot fuel dg x = Some (Inr P) \<and>
      (\<forall>c. cache_agrees dg c \<longrightarrow>
        (\<exists>c'. countNodePathsToRoot fuel (dg\<lparr>countNodePathsToRootCache := c\<rparr>) x =
             Some (Inr (length P), dg\<lparr>countNodePathsToRootCache := c'\<rparr>) \<and>
           cache_agrees dg c'))" by blast
  qed
  from list_all2_uniform [OF this] obtain K where
    K: "\<And>fuel. fuel \<ge> K \<Longrightarrow> list_all2 (\<lambda>x P. pathsFromNodeToRoot fuel dg x = Some (Inr P) \<and>
      (\<forall>c. cache_agrees dg c \<longrightarrow>
        (\<exists>c'. countNodePathsToRoot fuel (dg\<lparr>countNodePathsToRootCache := c\<rparr>) x =
             Some (Inr (length P), dg\<lparr>countNodePathsToRootCache := c'\<rparr>) \<and>
           cache_agrees dg c'))) ids Pss" by blast
  have "collectPaths (map (pathsFromNodeToRoot fuel dg) ids) = Some (Inr (concat Pss)) \<and>
        (\<exists>c'. reduceCount (countNodePathsToRoot fuel) ids 0 dg =
                 Some (Inr (length (concat Pss)), dg\<lparr>countNodePathsToRootCache := c'\<rparr>) \<and>
               cache_agrees dg c')" if "fuel \<ge> K" for fuel
  proof
    from K [OF that] have "list_all2 (\<lambda>x P. pathsFromNodeToRoot fuel dg x = Some (Inr P)) ids Pss"
      by (rule list_all2_mono) simp
    then have "map (pathsFromNodeToRoot fuel dg) ids = map (\<lambda>P. Some (Inr P)) Pss"
      by (induction rule: list_all2_induct) simp_all
    then show "collectPaths (map (pathsFromNodeToRoot fuel dg) ids) = Some (Inr (concat Pss))"
      using collectPaths_all_Inr [of "\<lambda>P. P" Pss] by simp
    from K [OF that] have "list_all2 (\<lambda>x P. \<forall>c. cache_agrees dg c \<longrightarrow>
        (\<exists>c'. countNodePathsToRoot fuel (dg\<lparr>countNodePathsToRootCache := c\<rparr>) x =
             Some (Inr (length P), dg\<lparr>countNodePathsToRootCache := c'\<rparr>) \<and>
           cache_agrees dg c')) ids Pss"
      by (rule list_all2_mono) simp
    moreover from c have "cache_agrees dg (countNodePathsToRootCache dg)"
      by (simp add: caches_ok_def)
    ultimately have "\<exists>c'. reduceCount (countNodePathsToRoot fuel) ids 0
                   (dg\<lparr>countNodePathsToRootCache := countNodePathsToRootCache dg\<rparr>) =
               Some (Inr (0 + sum_list (map length Pss)), dg\<lparr>countNodePathsToRootCache := c'\<rparr>) \<and>
             cache_agrees dg c'"
      by (rule reduceCount_total)
    then show "\<exists>c'. reduceCount (countNodePathsToRoot fuel) ids 0 dg =
                 Some (Inr (length (concat Pss)), dg\<lparr>countNodePathsToRootCache := c'\<rparr>) \<and>
               cache_agrees dg c'"
      by (simp add: length_concat)
  qed
  with Pss show ?thesis by blast
qed

subsection \<open>The upward queries\<close>

lemma paths_upd_memo_fun [simp]:
  "pathsFromNodeToRoot fuel (dg\<lparr>hasCyclesMemo := m\<rparr>) = pathsFromNodeToRoot fuel dg"
  by (rule ext) simp


lemma acyclic_after_check:
  assumes "caches_ok dg" "\<not> fst (hasCycles dg)"
  shows "isAcyclic (graph dg)"
    and "hasCycles dg = (False, dg\<lparr>hasCyclesMemo := Some False\<rparr>)"
    and "valid dg \<Longrightarrow> valid (dg\<lparr>hasCyclesMemo := Some False\<rparr>)"
    and "caches_ok (dg\<lparr>hasCyclesMemo := Some False\<rparr>)"
proof -
  from assms hasCycles_result [OF assms(1)] show ac: "isAcyclic (graph dg)" by simp
  with hasCycles_result [OF assms(1)]
  show "hasCycles dg = (False, dg\<lparr>hasCyclesMemo := Some False\<rparr>)" by simp
  show "valid dg \<Longrightarrow> valid (dg\<lparr>hasCyclesMemo := Some False\<rparr>)" by simp
  from assms(1) ac show "caches_ok (dg\<lparr>hasCyclesMemo := Some False\<rparr>)"
    by (simp add: caches_ok_def)
qed

lemma upward_queries:
  assumes v: "valid dg" and c: "caches_ok dg" and nc: "\<not> fst (hasCycles dg)"
    and reg: "map_of (pkgs dg) (getPkgId p) \<noteq> None"
  shows "\<exists>ids Pss. getPkgNodeIds dg p = Inr ids \<and>
     set ids = {n. \<exists>lbl. nodeLabel (graph dg) n = Some lbl \<and> pkgId lbl = getPkgId p} \<and>
     distinct ids \<and>
     list_all2 (upwardPaths dg) ids Pss \<and>
     (\<exists>K. \<forall>fuel\<ge>K.
        pkgPathsToRoot fuel dg p =
          Some (Inr (sort_key length (concat Pss)), dg\<lparr>hasCyclesMemo := Some False\<rparr>) \<and>
        (\<exists>c'. countPathsToRoot fuel dg p =
                 Some (Inr (length (concat Pss)),
                       dg\<lparr>hasCyclesMemo := Some False, countNodePathsToRootCache := c'\<rparr>) \<and>
               cache_agrees dg c'))"
proof -
  let ?dg1 = "dg\<lparr>hasCyclesMemo := Some False\<rparr>"
  note a = acyclic_after_check [OF c nc]
  from reg obtain pi where "map_of (pkgs dg) (getPkgId p) = Some pi" by auto
  from registered_has_occurrences [OF v this] obtain ids where
    ids: "map_of (pkgNodes dg) (getPkgId p) = Some ids" by blast
  with reg have g: "getPkgNodeIds dg p = Inr ids"
    by (auto simp: getPkgNodeIds_def Let_def)
  have ids1: "map_of (pkgNodes ?dg1) (getPkgId p) = Some ids" using ids by simp
  have ac1: "isAcyclic (graph ?dg1)" using a(1) by simp
  from upward_total [OF a(3) [OF v] a(4) ac1 ids1] obtain Pss K where
    Pss: "list_all2 (upwardPaths ?dg1) ids Pss" and
    K: "\<And>fuel. fuel \<ge> K \<Longrightarrow>
        collectPaths (map (pathsFromNodeToRoot fuel ?dg1) ids) = Some (Inr (concat Pss)) \<and>
        (\<exists>c'. reduceCount (countNodePathsToRoot fuel) ids 0 ?dg1 =
                 Some (Inr (length (concat Pss)), ?dg1\<lparr>countNodePathsToRootCache := c'\<rparr>) \<and>
               cache_agrees ?dg1 c')"
    by blast
  have "list_all2 (upwardPaths dg) ids Pss"
    using Pss by (rule list_all2_mono) (rule upwardPaths_cong [of dg ?dg1], simp_all)
  moreover have "pkgPathsToRoot fuel dg p = Some (Inr (sort_key length (concat Pss)), ?dg1) \<and>
        (\<exists>c'. countPathsToRoot fuel dg p =
                 Some (Inr (length (concat Pss)),
                       dg\<lparr>hasCyclesMemo := Some False, countNodePathsToRootCache := c'\<rparr>) \<and>
               cache_agrees dg c')" if "fuel \<ge> K" for fuel
    using K [OF that] a(2) g
    by (simp add: pkgPathsToRoot_def countPathsToRoot_def)
  ultimately show ?thesis
    using g occurrences_in_graph [OF v ids] by blast
qed

text \<open>
  Claim C1. On a valid instance without cycles and for a registered package, given enough
  fuel both queries return, and the number \<^verbatim>\<open>countPathsToRoot\<close> returns is the length of the
  list \<^verbatim>\<open>pkgPathsToRoot\<close> returns, although the count comes from the memoized per-node
  counts; the instance it leaves behind is valid again, with caches that agree.
\<close>

theorem countPathsToRoot_eq_length_pkgPathsToRoot:
  assumes "valid dg" and "caches_ok dg" and "\<not> fst (hasCycles dg)"
    and "map_of (pkgs dg) (getPkgId p) \<noteq> None"
  shows "\<exists>k. \<forall>fuel\<ge>k. \<exists>paths n dg1 dg2.
           pkgPathsToRoot fuel dg p = Some (Inr paths, dg1) \<and>
           countPathsToRoot fuel dg p = Some (Inr n, dg2) \<and>
           n = length paths \<and> valid dg2 \<and> caches_ok dg2"
proof -
  from upward_queries [OF assms] obtain Pss K where
    K: "\<And>fuel. fuel \<ge> K \<Longrightarrow>
        pkgPathsToRoot fuel dg p =
          Some (Inr (sort_key length (concat Pss)), dg\<lparr>hasCyclesMemo := Some False\<rparr>) \<and>
        (\<exists>c'. countPathsToRoot fuel dg p =
                 Some (Inr (length (concat Pss)),
                       dg\<lparr>hasCyclesMemo := Some False, countNodePathsToRootCache := c'\<rparr>) \<and>
               cache_agrees dg c')"
    by blast
  have "\<exists>paths n dg1 dg2.
           pkgPathsToRoot fuel dg p = Some (Inr paths, dg1) \<and>
           countPathsToRoot fuel dg p = Some (Inr n, dg2) \<and>
           n = length paths \<and> valid dg2 \<and> caches_ok dg2" if "fuel \<ge> K" for fuel
  proof -
    from K [OF that] obtain c' where
      1: "pkgPathsToRoot fuel dg p =
          Some (Inr (sort_key length (concat Pss)), dg\<lparr>hasCyclesMemo := Some False\<rparr>)" and
      2: "countPathsToRoot fuel dg p =
                 Some (Inr (length (concat Pss)),
                       dg\<lparr>hasCyclesMemo := Some False, countNodePathsToRootCache := c'\<rparr>)" and
      3: "cache_agrees dg c'" by blast
    have "valid (dg\<lparr>hasCyclesMemo := Some False, countNodePathsToRootCache := c'\<rparr>)"
      using assms(1) by simp
    moreover have "caches_ok (dg\<lparr>hasCyclesMemo := Some False, countNodePathsToRootCache := c'\<rparr>)"
      using 3 acyclic_after_check(1) [OF assms(2,3)] by (simp add: caches_ok_def)
    moreover have "length (concat Pss) = length (sort_key length (concat Pss))" by simp
    ultimately show ?thesis using 1 2 by blast
  qed
  then show ?thesis by blast
qed

theorem countPathsToRoot_eq_length_pkgPathsToRoot_witness:
  "valid diamond \<and> caches_ok diamond \<and> \<not> fst (hasCycles diamond) \<and>
   map_of (pkgs diamond) (getPkgId \<lparr>name = ''D'', version = Present ''1''\<rparr>) \<noteq> None \<and>
   (\<exists>k. \<forall>fuel\<ge>k. \<exists>paths n dg1 dg2.
           pkgPathsToRoot fuel diamond \<lparr>name = ''D'', version = Present ''1''\<rparr> = Some (Inr paths, dg1) \<and>
           countPathsToRoot fuel diamond \<lparr>name = ''D'', version = Present ''1''\<rparr> = Some (Inr n, dg2) \<and>
           n = length paths \<and> valid dg2 \<and> caches_ok dg2)"
proof -
  have 1: "valid diamond" by code_simp
  have 2: "caches_ok diamond" by (simp add: caches_ok_def cache_agrees_def diamond_def mkDepGraph_def)
  have 3: "\<not> fst (hasCycles diamond)" by code_simp
  have 4: "map_of (pkgs diamond) (getPkgId \<lparr>name = ''D'', version = Present ''1''\<rparr>) \<noteq> None"
    by code_simp
  from countPathsToRoot_eq_length_pkgPathsToRoot [OF 1 2 3 4] 1 2 3 4 show ?thesis by blast
qed

text \<open>
  The diamond of the specification: two paths of three packages each from \<open>D@1\<close> to the
  root, and the count two.
\<close>

lemma diamond_eval:
  "map_option fst (pkgPathsToRoot 3 diamond \<lparr>name = ''D'', version = Present ''1''\<rparr>) =
     Some (Inr [ [Own (mkPkg ''D'' ''1'' 3), Own (mkPkg ''B'' ''1'' 1), Own (mkPkg ''A'' ''1'' 0)],
                [Own (mkPkg ''D'' ''1'' 3), Own (mkPkg ''C'' ''1'' 2), Own (mkPkg ''A'' ''1'' 0)] ])"
  "map_option fst (countPathsToRoot 3 diamond \<lparr>name = ''D'', version = Present ''1''\<rparr>) = Some (Inr 2)"
  by code_simp+



text \<open>
  Claim C5. When \<^verbatim>\<open>hasCycles\<close> answers true, \<^verbatim>\<open>pkgPathsToRoot\<close> and \<^verbatim>\<open>countPathsToRoot\<close>
  fail with the error for cyclic graphs, for every argument and before any recursion. When it
  answers false, neither ever fails with that error, and on a valid instance both return
  given enough fuel.
\<close>

theorem cyclic_graph_unsupported:
  "(fst (hasCycles dg) \<longrightarrow>
      (\<exists>dg'. pkgPathsToRoot fuel dg p = Some (Inl (CyclicUnsupported ''pkgPathsToRoot''), dg')) \<and>
      (\<exists>dg'. countPathsToRoot fuel dg p = Some (Inl (CyclicUnsupported ''countPathsToRoot''), dg'))) \<and>
   (\<not> fst (hasCycles dg) \<longrightarrow>
      (\<forall>s dg'. pkgPathsToRoot fuel dg p \<noteq> Some (Inl (CyclicUnsupported s), dg')) \<and>
      (\<forall>s dg'. countPathsToRoot fuel dg p \<noteq> Some (Inl (CyclicUnsupported s), dg'))) \<and>
   (\<not> fst (hasCycles dg) \<and> valid dg \<and> caches_ok dg \<longrightarrow>
      (\<exists>k. \<forall>fuel'\<ge>k.
         (\<exists>r dg'. pkgPathsToRoot fuel' dg p = Some (r, dg')) \<and>
         (\<exists>r dg'. countPathsToRoot fuel' dg p = Some (r, dg'))))"
proof (intro conjI impI allI)
  assume "fst (hasCycles dg)"
  then show "\<exists>dg'. pkgPathsToRoot fuel dg p = Some (Inl (CyclicUnsupported ''pkgPathsToRoot''), dg')"
    "\<exists>dg'. countPathsToRoot fuel dg p = Some (Inl (CyclicUnsupported ''countPathsToRoot''), dg')"
    by (simp_all add: pkgPathsToRoot_cyclic countPathsToRoot_cyclic)
next
  fix s dg'
  assume "\<not> fst (hasCycles dg)"
  then show "pkgPathsToRoot fuel dg p \<noteq> Some (Inl (CyclicUnsupported s), dg')"
    "countPathsToRoot fuel dg p \<noteq> Some (Inl (CyclicUnsupported s), dg')"
    using pkgPathsToRoot_acyclic_errors countPathsToRoot_acyclic_errors by blast+
next
  assume a: "\<not> fst (hasCycles dg) \<and> valid dg \<and> caches_ok dg"
  show "\<exists>k. \<forall>fuel'\<ge>k.
         (\<exists>r dg'. pkgPathsToRoot fuel' dg p = Some (r, dg')) \<and>
         (\<exists>r dg'. countPathsToRoot fuel' dg p = Some (r, dg'))"
  proof (cases "map_of (pkgs dg) (getPkgId p)")
    case None
    then have "getPkgNodeIds dg p = Inl (NoSuchPkg (getPkgId p))"
      by (simp add: getPkgNodeIds_def)
    with a acyclic_after_check(2) [of dg] show ?thesis
      by (simp add: pkgPathsToRoot_def countPathsToRoot_def)
  next
    case (Some pi)
    then have "map_of (pkgs dg) (getPkgId p) \<noteq> None" by simp
    from upward_queries [OF _ _ _ this] a show ?thesis by blast
  qed
qed

theorem cyclic_graph_unsupported_witness:
  "fst (hasCycles cycA) \<and>
   (\<exists>dg'. pkgPathsToRoot 0 cycA \<lparr>name = ''X'', version = Present ''1''\<rparr> =
            Some (Inl (CyclicUnsupported ''pkgPathsToRoot''), dg')) \<and>
   (\<exists>dg'. countPathsToRoot 0 cycA \<lparr>name = ''X'', version = Present ''1''\<rparr> =
            Some (Inl (CyclicUnsupported ''countPathsToRoot''), dg')) \<and>
   \<not> fst (hasCycles diamond) \<and> valid diamond \<and> caches_ok diamond \<and>
   (\<forall>s dg'. pkgPathsToRoot 0 diamond \<lparr>name = ''D'', version = Present ''1''\<rparr> \<noteq>
              Some (Inl (CyclicUnsupported s), dg')) \<and>
   (\<forall>s dg'. countPathsToRoot 0 diamond \<lparr>name = ''D'', version = Present ''1''\<rparr> \<noteq>
              Some (Inl (CyclicUnsupported s), dg')) \<and>
   (\<exists>k. \<forall>fuel'\<ge>k.
         (\<exists>r dg'. pkgPathsToRoot fuel' diamond \<lparr>name = ''D'', version = Present ''1''\<rparr> = Some (r, dg')) \<and>
         (\<exists>r dg'. countPathsToRoot fuel' diamond \<lparr>name = ''D'', version = Present ''1''\<rparr> = Some (r, dg')))"
proof -
  have 1: "fst (hasCycles cycA)" by code_simp
  have 2: "\<not> fst (hasCycles diamond)" by code_simp
  have 3: "valid diamond" by code_simp
  have 4: "caches_ok diamond" by (simp add: caches_ok_def cache_agrees_def diamond_def mkDepGraph_def)
  note a = cyclic_graph_unsupported [of cycA 0 "\<lparr>name = ''X'', version = Present ''1''\<rparr>"]
  note b = cyclic_graph_unsupported [of diamond 0 "\<lparr>name = ''D'', version = Present ''1''\<rparr>"]
  note a1 = mp [OF conjunct1 [OF a] 1]
  note b2 = mp [OF conjunct1 [OF conjunct2 [OF b] ] 2]
  note b3 = mp [OF conjunct2 [OF conjunct2 [OF b] ] conjI [OF 2 conjI [OF 3 4] ] ]
  show ?thesis
    apply (intro conjI)
            apply (rule 1)
           apply (rule conjunct1 [OF a1])
          apply (rule conjunct2 [OF a1])
         apply (rule 2)
        apply (rule 3)
       apply (rule 4)
      apply (rule conjunct1 [OF b2])
     apply (rule conjunct2 [OF b2])
    apply (rule b3)
    done
qed

subsection \<open>Sorting the dependencies\<close>



lemma insort_key_map:
  "insort_key f (g x) (map g ys) = map g (insort_key (\<lambda>y. f (g y)) x ys)"
  by (induction ys) auto

lemma sort_key_map:
  "sort_key f (map g xs) = map g (sort_key (\<lambda>y. f (g y)) xs)"
  by (induction xs) (simp_all add: insort_key_map)

lemma sort_key_zip_keys:
  "map fst (sort_key (\<lambda>ik. h (snd ik)) (zip ids (map k ids))) = sort_key (\<lambda>i. h (k i)) ids"
proof -
  have "zip ids (map k ids) = map (\<lambda>i. (i, k i)) ids"
    by (induction ids) auto
  then show ?thesis by (simp add: sort_key_map comp_def)
qed

lemma valid_node_pkg:
  assumes "valid g" "nodeLabel (graph g) i = Some lbl"
  shows "\<exists>p. readProperty (pkgs g) (pkgId lbl) = Own p \<and> getPkgId p = pkgId lbl"
proof -
  from assms(2) have "(i, lbl) \<in> set (gnodes (graph g))"
    unfolding nodeLabel_def by (rule map_of_SomeD)
  moreover from assms(1)
  have "\<forall>n\<in>set (gnodes (graph g)). map_of (pkgs g) (pkgId (snd n)) \<noteq> None"
    by (simp add: valid_def list_all_iff)
  ultimately obtain p where p: "map_of (pkgs g) (pkgId lbl) = Some p" by fastforce
  then have "(pkgId lbl, p) \<in> set (pkgs g)" by (rule map_of_SomeD)
  moreover from assms(1) have "\<forall>kp\<in>set (pkgs g). fst kp = getPkgId (snd kp)"
    by (simp add: valid_def registry_ok_def list_all_iff)
  ultimately have "getPkgId p = pkgId lbl" by fastforce
  with p show ?thesis by (simp add: readProperty_def)
qed

lemma getNode_valid:
  assumes "valid g" "hasNode (graph g) i"
  shows "\<exists>lbl p. nodeLabel (graph g) i = Some lbl \<and>
           readProperty (pkgs g) (pkgId lbl) = Own p \<and> getPkgId p = pkgId lbl \<and>
           getNode g i = Inr \<lparr>node_id = i, node_info = infoOrEmpty (Own lbl), pkg = Own p\<rparr>"
proof -
  from assms(2) obtain lbl where lbl: "nodeLabel (graph g) i = Some lbl"
    by (auto simp: hasNode_nodeLabel)
  from valid_node_pkg [OF assms(1) lbl] lbl show ?thesis
    by (auto simp: getNode_present)
qed

lemma depKey_valid:
  assumes "valid g" "hasNode (graph g) i"
  shows "depKey g i = Inr (storedPkgId g i)"
proof -
  from getNode_valid [OF assms] show ?thesis
    by (auto simp: depKey_def storedPkgId_def)
qed

lemma sortDeps_valid:
  assumes "valid g" "\<And>i. i \<in> set ids \<Longrightarrow> hasNode (graph g) i"
  shows "sortDeps collate g ids = Inr (sort_key (\<lambda>i. collate (storedPkgId g i)) ids)"
proof (cases "length ids \<le> 1")
  case True
  then have "ids = [] \<or> (\<exists>x. ids = [x])"
    by (cases ids) (auto simp: length_Suc_conv)
  with True show ?thesis by (auto simp: sortDeps_def)
next
  case False
  have "mapE (depKey g) ids = Inr (map (storedPkgId g) ids)"
    using assms by (intro mapE_all_Inr depKey_valid)
  with False show ?thesis by (simp add: sortDeps_def sort_key_zip_keys)
qed

lemma getNodeDeps_ids:
  assumes "valid g" "getNodeDepsNodeIds g a = Inr ds"
  shows "\<exists>ns. getNodeDeps g a = Inr ns \<and> map node_id ns = ds"
    and "\<And>d. d \<in> set ds \<Longrightarrow> hasNode (graph g) d"
proof -
  from assms(1) have ok: "graph_ok (graph g)" by (simp add: valid_def)
  from assms(2) have s: "successors (graph g) a = Some ds"
    by (auto simp: getNodeDepsNodeIds_def split: option.splits)
  show "\<exists>ns. getNodeDeps g a = Inr ns \<and> map node_id ns = ds"
  proof (cases "hasNode (graph g) a")
    case True
    from getNodeDeps_present [OF ok True s] show ?thesis by (simp add: comp_def)
  next
    case False
    with s have "ds = []" by (auto simp: successors_def split: if_splits)
    with assms(2) show ?thesis by (simp add: getNodeDeps_def)
  qed
  show "\<And>d. d \<in> set ds \<Longrightarrow> hasNode (graph g) d"
  proof (cases "hasNode (graph g) a")
    case True
    fix d assume "d \<in> set ds"
    with successors_in_graph [OF ok True s] show "hasNode (graph g) d" by simp
  next
    case False
    fix d assume d: "d \<in> set ds"
    from False s have "ds = []" by (auto simp: successors_def split: if_splits)
    with d show "hasNode (graph g) d" by simp
  qed
qed

lemma compareDeps_valid:
  assumes "valid gA" "valid gB"
    and "getNodeDepsNodeIds gA a = Inr dsA" "getNodeDepsNodeIds gB b = Inr dsB"
  shows "compareDeps collate f gA a gB b T =
     (if length dsA \<noteq> length dsB then Some (Inr (False, T))
      else forDeps f (zip (sort_key (\<lambda>i. collate (storedPkgId gA i)) dsA)
                          (sort_key (\<lambda>i. collate (storedPkgId gB i)) dsB)) T)"
proof -
  from getNodeDeps_ids [OF assms(1,3)] obtain nsA where
    A: "getNodeDeps gA a = Inr nsA" "map node_id nsA = dsA" by blast
  from getNodeDeps_ids [OF assms(2,4)] obtain nsB where
    B: "getNodeDeps gB b = Inr nsB" "map node_id nsB = dsB" by blast
  have sA: "sortDeps collate gA dsA = Inr (sort_key (\<lambda>i. collate (storedPkgId gA i)) dsA)"
    using getNodeDeps_ids(2) [OF assms(1,3)] by (intro sortDeps_valid assms)
  have sB: "sortDeps collate gB dsB = Inr (sort_key (\<lambda>i. collate (storedPkgId gB i)) dsB)"
    using getNodeDeps_ids(2) [OF assms(2,4)] by (intro sortDeps_valid assms)
  show ?thesis
    unfolding compareDeps_def A(1) B(1) by (simp add: A(2) B(2) sA sB Let_def)
qed

subsection \<open>Termination of the comparison\<close>








subsection \<open>The pairing of the dependencies\<close>

lemma forDeps_comparesPairwise:
  "forDeps f ps T = Some (Inr r) \<longleftrightarrow> comparesPairwise f ps T r"
proof
  show "forDeps f ps T = Some (Inr r) \<Longrightarrow> comparesPairwise f ps T r"
  proof (induction ps arbitrary: T)
    case Nil
    then show ?case by (auto intro: comparesPairwise.finished)
  next
    case (Cons xy ps)
    obtain a b where xy: "xy = (a, b)" by (cases xy)
    let ?key = "a @ ''_'' @ b"
    show ?case
    proof (cases "?key \<in> T")
      case True
      with Cons.prems xy have "forDeps f ps T = Some (Inr r)" by simp
      then have "comparesPairwise f ps T r" by (rule Cons.IH)
      with True show ?thesis unfolding xy by (rule comparesPairwise.passedOver)
    next
      case False
      with Cons.prems xy obtain c T1 where
        1: "f a b (insert ?key T) = Some (Inr (c, T1))"
        by (auto simp: Let_def split: option.splits sum.splits)
      show ?thesis
      proof (cases c)
        case False
        with 1 Cons.prems xy \<open>?key \<notin> T\<close> have "r = (False, T1)" by simp
        with 1 False \<open>?key \<notin> T\<close> show ?thesis
          unfolding xy by (auto intro: comparesPairwise.differ)
      next
        case True
        with 1 Cons.prems xy \<open>?key \<notin> T\<close> have "forDeps f ps T1 = Some (Inr r)" by simp
        then have "comparesPairwise f ps T1 r" by (rule Cons.IH)
        with 1 True \<open>?key \<notin> T\<close> show ?thesis
          unfolding xy by (auto intro: comparesPairwise.agree)
      qed
    qed
  qed
  show "comparesPairwise f ps T r \<Longrightarrow> forDeps f ps T = Some (Inr r)"
    by (induction rule: comparesPairwise.induct) simp_all
qed

lemma getNode_of_deps:
  assumes "getNodeDepsNodeIds g a = Inr ds"
  shows "\<exists>n. getNode g a = Inr n"
proof -
  from assms have "hasNode (graph g) a \<or> a \<in> set objectPrototypeKeys"
    by (auto simp: getNodeDepsNodeIds_def successors_def split: if_splits)
  then have "g_node (graph g) a \<noteq> Unset"
    by (auto simp: g_node_def readProperty_def hasNode_def map_of_eq_None_iff
        split: option.splits)
  then show ?thesis
    by (cases "g_node (graph g) a")
      (simp_all add: getNode_def getGraphNode_def getNodePkg_def pkgIdKey_def)
qed

lemma nodeEquals_Suc_views:
  assumes "getNode gA a = Inr nA" "getNode gB b = Inr nB"
  shows "nodeEquals collate (Suc fuel) gA a gB b cr T =
       (if comparesPair cr gA a gB b \<and>
           (\<not> isEqualPkg (pkg nA) (pkg nB) \<or> node_info nA \<noteq> node_info nB)
        then Some (Inr (False, T))
        else compareDeps collate (\<lambda>x y. nodeEquals collate fuel gA x gB y cr) gA a gB b T)"
  using assms by simp

text \<open>
  Claim C4, amended. For two nodes of valid instances, one call of \<^verbatim>\<open>nodeEquals\<close> compares
  the two nodes unless exempt, then answers false when the two dependency-id lists differ in
  length, and otherwise answers what the pairwise comparison of the specification
  (\<open>comparesPairwise\<close>) gives on the two lists paired position by position, after each list
  has been sorted on its own, stably, by the collation of the runtime applied to the package
  id of each dependency (the key the comparator computes, \<^verbatim>\<open>getPkgId\<close> of the package of the
  node). Each sorted list is a permutation of the original that is ordered by that key and
  keeps dependencies whose keys collate alike in the order in which they were listed; it does
  not depend on that order when no two keys collate alike. The order is that of
  \<^verbatim>\<open>localeCompare\<close>, whatever the runtime makes it; it is not the plain comparison of
  strings.
\<close>

theorem nodeEquals_pairs_sorted_dependencies:
  assumes "valid gA" and "valid gB"
    and "getNodeDepsNodeIds gA a = Inr dsA" and "getNodeDepsNodeIds gB b = Inr dsB"
  shows "\<exists>nA nB sA sB.
     getNode gA a = Inr nA \<and> getNode gB b = Inr nB \<and>
     sA = sort_key (\<lambda>i. collate (storedPkgId gA i)) dsA \<and>
     sB = sort_key (\<lambda>i. collate (storedPkgId gB i)) dsB \<and>
     (\<forall>r. nodeEquals collate (Suc fuel) gA a gB b cr T = Some (Inr r) \<longleftrightarrow>
        (if comparesPair cr gA a gB b \<and>
            (\<not> isEqualPkg (pkg nA) (pkg nB) \<or> node_info nA \<noteq> node_info nB)
         then r = (False, T)
         else if length dsA \<noteq> length dsB then r = (False, T)
         else comparesPairwise (\<lambda>x y. nodeEquals collate fuel gA x gB y cr) (zip sA sB) T r)) \<and>
     (\<forall>i\<in>set dsA. depKey gA i = Inr (storedPkgId gA i)) \<and>
     (\<forall>i\<in>set dsB. depKey gB i = Inr (storedPkgId gB i)) \<and>
     mset sA = mset dsA \<and> sorted (map (\<lambda>i. collate (storedPkgId gA i)) sA) \<and>
     mset sB = mset dsB \<and> sorted (map (\<lambda>i. collate (storedPkgId gB i)) sB) \<and>
     (\<forall>k. filter (\<lambda>i. collate (storedPkgId gA i) = k) sA =
          filter (\<lambda>i. collate (storedPkgId gA i) = k) dsA) \<and>
     (\<forall>k. filter (\<lambda>i. collate (storedPkgId gB i) = k) sB =
          filter (\<lambda>i. collate (storedPkgId gB i) = k) dsB) \<and>
     (\<forall>ds'. mset ds' = mset dsA \<and> inj_on (\<lambda>i. collate (storedPkgId gA i)) (set dsA) \<longrightarrow>
        sort_key (\<lambda>i. collate (storedPkgId gA i)) ds' = sA) \<and>
     (\<forall>ds'. mset ds' = mset dsB \<and> inj_on (\<lambda>i. collate (storedPkgId gB i)) (set dsB) \<longrightarrow>
        sort_key (\<lambda>i. collate (storedPkgId gB i)) ds' = sB)"
proof -
  from getNode_of_deps [OF assms(3)] obtain nA where nA: "getNode gA a = Inr nA" by blast
  from getNode_of_deps [OF assms(4)] obtain nB where nB: "getNode gB b = Inr nB" by blast
  let ?f = "\<lambda>x y. nodeEquals collate fuel gA x gB y cr"
  let ?sA = "sort_key (\<lambda>i. collate (storedPkgId gA i)) dsA"
  let ?sB = "sort_key (\<lambda>i. collate (storedPkgId gB i)) dsB"
  have eq: "nodeEquals collate (Suc fuel) gA a gB b cr T =
       (if comparesPair cr gA a gB b \<and>
           (\<not> isEqualPkg (pkg nA) (pkg nB) \<or> node_info nA \<noteq> node_info nB)
        then Some (Inr (False, T))
        else if length dsA \<noteq> length dsB then Some (Inr (False, T))
        else forDeps ?f (zip ?sA ?sB) T)"
    unfolding nodeEquals_Suc_views [OF nA nB] compareDeps_valid [OF assms] by simp
  have res: "\<forall>r. nodeEquals collate (Suc fuel) gA a gB b cr T = Some (Inr r) \<longleftrightarrow>
        (if comparesPair cr gA a gB b \<and>
            (\<not> isEqualPkg (pkg nA) (pkg nB) \<or> node_info nA \<noteq> node_info nB)
         then r = (False, T)
         else if length dsA \<noteq> length dsB then r = (False, T)
         else comparesPairwise ?f (zip ?sA ?sB) T r)"
    unfolding eq forDeps_comparesPairwise [symmetric] by auto
  have keyA: "\<forall>i\<in>set dsA. depKey gA i = Inr (storedPkgId gA i)"
    using getNodeDeps_ids(2) [OF assms(1,3)] depKey_valid [OF assms(1)] by blast
  have keyB: "\<forall>i\<in>set dsB. depKey gB i = Inr (storedPkgId gB i)"
    using getNodeDeps_ids(2) [OF assms(2,4)] depKey_valid [OF assms(2)] by blast
  have det: "sort_key k ds' = sort_key k ds"
    if "mset ds' = mset ds" "inj_on k (set ds)" for ds' ds :: "string list" and k :: "string \<Rightarrow> 'a"
  proof (rule sort_key_eq_sort_key [OF that(1)])
    from that(1) have "set ds' = set ds" by (rule mset_eq_setD)
    with that(2) show "inj_on k (set ds')" by simp
  qed
  have sorted: "mset ?sA = mset dsA" "sorted (map (\<lambda>i. collate (storedPkgId gA i)) ?sA)"
    "mset ?sB = mset dsB" "sorted (map (\<lambda>i. collate (storedPkgId gB i)) ?sB)"
    by simp_all
  have stA: "\<forall>k. filter (\<lambda>i. collate (storedPkgId gA i) = k) ?sA =
          filter (\<lambda>i. collate (storedPkgId gA i) = k) dsA"
    by (simp add: sort_key_stable)
  have stB: "\<forall>k. filter (\<lambda>i. collate (storedPkgId gB i) = k) ?sB =
          filter (\<lambda>i. collate (storedPkgId gB i) = k) dsB"
    by (simp add: sort_key_stable)
  have detA: "\<forall>ds'. mset ds' = mset dsA \<and> inj_on (\<lambda>i. collate (storedPkgId gA i)) (set dsA) \<longrightarrow>
        sort_key (\<lambda>i. collate (storedPkgId gA i)) ds' = ?sA"
    using det by blast
  have detB: "\<forall>ds'. mset ds' = mset dsB \<and> inj_on (\<lambda>i. collate (storedPkgId gB i)) (set dsB) \<longrightarrow>
        sort_key (\<lambda>i. collate (storedPkgId gB i)) ds' = ?sB"
    using det by blast
  show ?thesis
    apply (rule exI [of _ nA])
    apply (rule exI [of _ nB])
    apply (rule exI [of _ ?sA])
    apply (rule exI [of _ ?sB])
    apply (intro conjI)
                  apply (rule nA)
                 apply (rule nB)
                apply (rule refl)
               apply (rule refl)
              apply (rule res)
             apply (rule keyA)
            apply (rule keyB)
           apply (rule sorted(1))
          apply (rule sorted(2))
         apply (rule sorted(3))
        apply (rule sorted(4))
       apply (rule stA)
      apply (rule stB)
     apply (rule detA)
    apply (rule detB)
    done
qed

theorem nodeEquals_pairs_sorted_dependencies_witness:
  "valid caseA \<and> valid caseB \<and>
   getNodeDepsNodeIds caseA ''x'' = Inr [''r'', ''y''] \<and>
   getNodeDepsNodeIds caseB ''x'' = Inr [''r'', ''y''] \<and>
   sort_key (\<lambda>i. localeCollation (storedPkgId caseA i)) [''r'', ''y''] = [''r'', ''y''] \<and>
   sort_key (\<lambda>i. localeCollation (storedPkgId caseB i)) [''r'', ''y''] = [''y'', ''r''] \<and>
   (\<exists>nA nB sA sB.
     getNode caseA ''x'' = Inr nA \<and> getNode caseB ''x'' = Inr nB \<and>
     sA = sort_key (\<lambda>i. localeCollation (storedPkgId caseA i)) [''r'', ''y''] \<and>
     sB = sort_key (\<lambda>i. localeCollation (storedPkgId caseB i)) [''r'', ''y''] \<and>
     (\<forall>r. nodeEquals localeCollation (Suc 2) caseA ''x'' caseB ''x'' False {} = Some (Inr r) \<longleftrightarrow>
        (if comparesPair False caseA ''x'' caseB ''x'' \<and>
            (\<not> isEqualPkg (pkg nA) (pkg nB) \<or> node_info nA \<noteq> node_info nB)
         then r = (False, {})
         else if length [''r'', ''y''] \<noteq> length [''r'', ''y''] then r = (False, {})
         else comparesPairwise (\<lambda>x y. nodeEquals localeCollation 2 caseA x caseB y False)
                (zip sA sB) {} r)) \<and>
     (\<forall>i\<in>set [''r'', ''y'']. depKey caseA i = Inr (storedPkgId caseA i)) \<and>
     (\<forall>i\<in>set [''r'', ''y'']. depKey caseB i = Inr (storedPkgId caseB i)) \<and>
     mset sA = mset [''r'', ''y''] \<and>
     sorted (map (\<lambda>i. localeCollation (storedPkgId caseA i)) sA) \<and>
     mset sB = mset [''r'', ''y''] \<and>
     sorted (map (\<lambda>i. localeCollation (storedPkgId caseB i)) sB) \<and>
     (\<forall>k. filter (\<lambda>i. localeCollation (storedPkgId caseA i) = k) sA =
          filter (\<lambda>i. localeCollation (storedPkgId caseA i) = k) [''r'', ''y'']) \<and>
     (\<forall>k. filter (\<lambda>i. localeCollation (storedPkgId caseB i) = k) sB =
          filter (\<lambda>i. localeCollation (storedPkgId caseB i) = k) [''r'', ''y'']) \<and>
     (\<forall>ds'. mset ds' = mset [''r'', ''y''] \<and>
            inj_on (\<lambda>i. localeCollation (storedPkgId caseA i)) (set [''r'', ''y'']) \<longrightarrow>
        sort_key (\<lambda>i. localeCollation (storedPkgId caseA i)) ds' = sA) \<and>
     (\<forall>ds'. mset ds' = mset [''r'', ''y''] \<and>
            inj_on (\<lambda>i. localeCollation (storedPkgId caseB i)) (set [''r'', ''y'']) \<longrightarrow>
        sort_key (\<lambda>i. localeCollation (storedPkgId caseB i)) ds' = sB))"
proof -
  have 1: "valid caseA" by code_simp
  have 2: "valid caseB" by code_simp
  have 3: "getNodeDepsNodeIds caseA ''x'' = Inr [''r'', ''y'']" by code_simp
  have 4: "getNodeDepsNodeIds caseB ''x'' = Inr [''r'', ''y'']" by code_simp
  have 5: "sort_key (\<lambda>i. localeCollation (storedPkgId caseA i)) [''r'', ''y''] = [''r'', ''y'']"
    by code_simp
  have 6: "sort_key (\<lambda>i. localeCollation (storedPkgId caseB i)) [''r'', ''y''] = [''y'', ''r'']"
    by code_simp
  note c = nodeEquals_pairs_sorted_dependencies [OF 1 2 3 4, of localeCollation 2 False "{}"]
  show ?thesis
    apply (intro conjI)
          apply (rule 1)
         apply (rule 2)
        apply (rule 3)
       apply (rule 4)
      apply (rule 5)
     apply (rule 6)
    apply (rule c)
    done
qed

text \<open>
  Claim C4 as stated fails. With the collation of a runtime built with ICU the dependencies
  \<open>r\<close> and \<open>y\<close> of \<open>x\<close> in \<open>caseA\<close>, of the packages \<open>a@1\<close> and \<open>B@1\<close>, are sorted as \<open>r\<close>,
  \<open>y\<close>, which is not ascending in the plain comparison of strings (there \<open>B@1\<close> comes first);
  and \<open>caseA\<close> and \<open>caseB\<close> compare as different under \<open>compareRoot\<close> false with this
  collation, and as equal with the plain comparison. With dependencies of the same package id
  the pairing follows the order of listing: \<open>tieA\<close> and \<open>tieB\<close>, with the same nodes and
  edges, compare as different.
\<close>

theorem localeCompare_pairing_counterexample:
  "getNodeDepsNodeIds caseA ''x'' = Inr [''r'', ''y''] \<and>
   sortDeps localeCollation caseA [''r'', ''y''] = Inr [''r'', ''y''] \<and>
   map (storedPkgId caseA) [''r'', ''y''] = [''a@1'', ''B@1''] \<and>
   sorted (map (\<lambda>i. codeUnitOrder (storedPkgId caseA i)) [''r'', ''y'']) = False \<and>
   sortDeps codeUnitOrder caseA [''r'', ''y''] = Inr [''y'', ''r''] \<and>
   valid caseA \<and> valid caseB \<and>
   equals localeCollation 10 caseA (Native caseB) False = Some (Inr False) \<and>
   equals codeUnitOrder 10 caseA (Native caseB) False = Some (Inr True) \<and>
   valid tieA \<and> valid tieB \<and>
   set (gedges (graph tieA)) = set (gedges (graph tieB)) \<and>
   gnodes (graph tieA) = gnodes (graph tieB) \<and>
   getNodeDepsNodeIds tieA ''r'' = Inr [''a1'', ''a2''] \<and>
   getNodeDepsNodeIds tieB ''r'' = Inr [''a2'', ''a1''] \<and>
   sortDeps localeCollation tieA [''a1'', ''a2''] = Inr [''a1'', ''a2''] \<and>
   sortDeps localeCollation tieB [''a2'', ''a1''] = Inr [''a2'', ''a1''] \<and>
   equals localeCollation 17 tieA (Native tieB) True = Some (Inr False)"
  by code_simp

subsection \<open>What a true answer of nodeEquals means\<close>





subsection \<open>Instances that differ at the root only\<close>














subsection \<open>The instance a document describes\<close>








subsection \<open>The answers of equals\<close>





end
